theory Spec2Isabelle
  imports Complex_Main "HOL-Library.Sublist" "HOL-Library.AList"
begin

section \<open>Leitor_Fatura: the line-extraction engine of \<^verbatim>\<open>leitor_fatura.py\<close>\<close>

text \<open>
  The development embeds the functions of \<^verbatim>\<open>src/leitor_fatura.py\<close> that scan invoice
  text line by line (keyword matcher, date extractor, amount extractor, money parser,
  line extraction engine), the totals computed for the summary sheet, and the keyword
  store operations.

  Conventions of the embedding.
  \<^item> A Python \<^verbatim>\<open>str\<close> is a \<open>string\<close>. The model covers text whose code points are
    below 128: case mapping, the digit class, the word class, white space and line breaks
    are those of Python restricted to that range, and every other character is treated as
    an ordinary symbol (no case, not a digit, not a word character, not white space).
  \<^item> A Python \<^verbatim>\<open>float\<close> is an exact rational number (\<open>rat\<close>): sums, negation and the
    rounding to two decimals are computed exactly, so the binary rounding of IEEE-754
    doubles, infinities and NaN are outside the model.
  \<^item> An exception is a value \<open>Inl e\<close> of a sum type; \<^verbatim>\<open>None\<close> is \<open>None\<close>.
\<close>

subsection \<open>Python string operations\<close>

definition lower_letters :: string where
  "lower_letters = ''abcdefghijklmnopqrstuvwxyz''"

definition upper_letters :: string where
  "upper_letters = ''ABCDEFGHIJKLMNOPQRSTUVWXYZ''"

definition digit_chars :: string where
  "digit_chars = ''0123456789''"

text \<open>\<^verbatim>\<open>c.upper()\<close> for one character.\<close>

definition upper_char :: "char \<Rightarrow> char" where
  "upper_char c = (case map_of (zip lower_letters upper_letters) c of
                     None \<Rightarrow> c | Some u \<Rightarrow> u)"

text \<open>\<^verbatim>\<open>s.upper()\<close>.\<close>

definition upper :: "string \<Rightarrow> string" where
  "upper s = map upper_char s"

text \<open>\<^verbatim>\<open>sub in s\<close> on strings: \<open>sub\<close> occurs in \<open>s\<close> as a contiguous run.\<close>

fun contains :: "string \<Rightarrow> string \<Rightarrow> bool" where
  "contains [] sub = (sub = [])"
| "contains (c # cs) sub = (prefix sub (c # cs) \<or> contains cs sub)"

text \<open>
  White space as \<^verbatim>\<open>str.strip()\<close> and \<^verbatim>\<open>str.isspace()\<close> see it below code point 128:
  tab, line feed, vertical tab, form feed, carriage return, the four separators
  0x1C to 0x1F, and the space.
\<close>

definition space_chars :: string where
  "space_chars = [CHR 0x09, CHR 0x0A, CHR 0x0B, CHR 0x0C, CHR 0x0D,
                  CHR 0x1C, CHR 0x1D, CHR 0x1E, CHR 0x1F, CHR 0x20]"

text \<open>\<^verbatim>\<open>s.strip(chars)\<close>: drop the characters of \<open>chars\<close> from both ends.\<close>

definition strip_set :: "string \<Rightarrow> string \<Rightarrow> string" where
  "strip_set chars s =
     rev (dropWhile (\<lambda>c. c \<in> set chars) (rev (dropWhile (\<lambda>c. c \<in> set chars) s)))"

text \<open>\<^verbatim>\<open>s.strip()\<close>.\<close>

definition strip :: "string \<Rightarrow> string" where
  "strip s = strip_set space_chars s"

definition startswith :: "string \<Rightarrow> string \<Rightarrow> bool" where
  "startswith s p = prefix p s"

definition endswith :: "string \<Rightarrow> string \<Rightarrow> bool" where
  "endswith s p = suffix p s"

text \<open>
  \<^verbatim>\<open>s.replace(old, new)\<close>: every occurrence of \<open>old\<close>, leftmost first and without overlap;
  an empty \<open>old\<close> inserts \<open>new\<close> before every character and at the end.
\<close>

fun replace :: "string \<Rightarrow> string \<Rightarrow> string \<Rightarrow> string" where
  "replace [] old new = (if old = [] then new else [])"
| "replace (c # cs) old new =
     (if old = [] then new @ c # replace cs old new
      else if prefix old (c # cs) then new @ replace (drop (length old - 1) cs) old new
      else c # replace cs old new)"

text \<open>
  \<^verbatim>\<open>s.splitlines()\<close>. The line boundaries below code point 128 are line feed, carriage
  return (with a following line feed taken as one boundary), vertical tab, form feed and
  the separators 0x1C, 0x1D, 0x1E. A boundary at the very end opens no further line.
\<close>

definition linebreak_chars :: string where
  "linebreak_chars = [CHR 0x0A, CHR 0x0B, CHR 0x0C, CHR 0x0D, CHR 0x1C, CHR 0x1D, CHR 0x1E]"

fun splitlines_from :: "string \<Rightarrow> string \<Rightarrow> string list" where
  "splitlines_from acc [] = (if acc = [] then [] else [rev acc])"
| "splitlines_from acc (c # cs) =
     (if c \<in> set linebreak_chars
      then rev acc # splitlines_from []
             (if c = CHR 0x0D \<and> cs \<noteq> [] \<and> hd cs = CHR 0x0A then tl cs else cs)
      else splitlines_from (c # acc) cs)"

definition splitlines :: "string \<Rightarrow> string list" where
  "splitlines s = splitlines_from [] s"

subsection \<open>Regular expressions with Python's backtracking order\<close>

text \<open>
  The patterns of the source are values of \<open>rx\<close>. A match attempt at one position returns
  every way the pattern can match there, in the order in which Python's backtracking
  matcher tries them (greedy repetition first, alternatives left to right); the first
  element is the match Python reports.

  A matcher state is the text already passed (reversed, so that its head is the
  character before the current position), the text still ahead, and the groups
  captured so far.
\<close>

datatype rx =
    Eps
  | Cls string
  | WordB
  | Seq rx rx
  | Alt rx rx
  | Opt rx
  | Star rx
  | Grp nat rx

type_synonym mstate = "string \<times> string \<times> (nat \<times> string) list"

abbreviation passed :: "mstate \<Rightarrow> string" where
  "passed s \<equiv> fst s"

abbreviation ahead :: "mstate \<Rightarrow> string" where
  "ahead s \<equiv> fst (snd s)"

abbreviation captured :: "mstate \<Rightarrow> (nat \<times> string) list" where
  "captured s \<equiv> snd (snd s)"

definition word_chars :: string where
  "word_chars = lower_letters @ upper_letters @ digit_chars @ ''_''"

text \<open>\<^verbatim>\<open>\b\<close>: exactly one of the two neighbouring characters is a word character.\<close>

definition at_word_boundary :: "string \<Rightarrow> string \<Rightarrow> bool" where
  "at_word_boundary pre rest =
     ((pre \<noteq> [] \<and> hd pre \<in> set word_chars) \<noteq> (rest \<noteq> [] \<and> hd rest \<in> set word_chars))"

text \<open>
  The text a match attempt that started in state \<open>s\<close> has consumed when it is in
  state \<open>t\<close>.
\<close>

definition consumed :: "mstate \<Rightarrow> mstate \<Rightarrow> string" where
  "consumed s t = rev (take (length (passed t) - length (passed s)) (passed t))"

text \<open>
  A repetition stops iterating when an iteration consumed nothing (Python's matcher
  bounds such loops as well); every repeated pattern of the source consumes a character.
\<close>

fun rmatch :: "rx \<Rightarrow> mstate \<Rightarrow> mstate list" where
  "rmatch Eps s = [s]"
| "rmatch (Cls cl) s =
     (case ahead s of [] \<Rightarrow> []
      | c # cs \<Rightarrow> if c \<in> set cl then [(c # passed s, cs, captured s)] else [])"
| "rmatch WordB s = (if at_word_boundary (passed s) (ahead s) then [s] else [])"
| "rmatch (Seq a b) s = concat (map (rmatch b) (rmatch a s))"
| "rmatch (Alt a b) s = rmatch a s @ rmatch b s"
| "rmatch (Opt a) s = rmatch a s @ [s]"
| "rmatch (Star a) s =
     concat (map (\<lambda>t. if length (ahead t) < length (ahead s) then rmatch (Star a) t else [])
                 (rmatch a s))
     @ [s]"
| "rmatch (Grp n a) s =
     map (\<lambda>t. (passed t, ahead t, AList.update n (consumed s t) (captured t))) (rmatch a s)"

text \<open>Pattern builders: a sequence, \<^verbatim>\<open>r+\<close>, \<^verbatim>\<open>r{n}\<close> and the greedy \<^verbatim>\<open>r{lo,hi}\<close>.\<close>

fun seqs :: "rx list \<Rightarrow> rx" where
  "seqs [] = Eps"
| "seqs [r] = r"
| "seqs (r # rs) = Seq r (seqs rs)"

definition one_or_more :: "rx \<Rightarrow> rx" where
  "one_or_more r = Seq r (Star r)"

fun exactly :: "nat \<Rightarrow> rx \<Rightarrow> rx" where
  "exactly 0 r = Eps"
| "exactly (Suc n) r = Seq r (exactly n r)"

fun at_most :: "nat \<Rightarrow> rx \<Rightarrow> rx" where
  "at_most 0 r = Eps"
| "at_most (Suc n) r = Opt (Seq r (at_most n r))"

definition between :: "nat \<Rightarrow> nat \<Rightarrow> rx \<Rightarrow> rx" where
  "between lo hi r = Seq (exactly lo r) (at_most (hi - lo) r)"

text \<open>
  A match object: the subject before the match (reversed), the matched text
  (\<^verbatim>\<open>m.group(0)\<close>), the subject after the match, and the numbered groups that took part.
\<close>

record match_obj =
  before_rev :: string
  matched :: string
  after :: string
  groups :: "(nat \<times> string) list"

text \<open>\<^verbatim>\<open>m.group(i)\<close>: \<open>None\<close> for a group that took no part in the match.\<close>

definition group :: "match_obj \<Rightarrow> nat \<Rightarrow> string option" where
  "group m i = map_of (groups m) i"

text \<open>
  One scan for the leftmost match, from the current position onwards. With
  \<open>must_advance\<close> set, an empty match at the starting position is not accepted (the
  matcher backtracks into the other ways to match there); the flag is cleared for the
  positions that follow. Python sets it after an empty match, to make progress.
\<close>

definition first_match :: "bool \<Rightarrow> rx \<Rightarrow> string \<Rightarrow> string \<Rightarrow> mstate option" where
  "first_match must_advance r pre rest =
     (case filter (\<lambda>t. \<not> must_advance \<or> length (ahead t) < length rest)
                  (rmatch r (pre, rest, []))
      of [] \<Rightarrow> None | t # _ \<Rightarrow> Some t)"

definition mk_match :: "string \<Rightarrow> string \<Rightarrow> mstate \<Rightarrow> match_obj" where
  "mk_match pre rest t =
     \<lparr>before_rev = pre, matched = consumed (pre, rest, []) t,
      after = ahead t, groups = captured t\<rparr>"

fun scan :: "bool \<Rightarrow> rx \<Rightarrow> string \<Rightarrow> string \<Rightarrow> match_obj option" where
  "scan must_advance r pre [] =
     map_option (mk_match pre []) (first_match must_advance r pre [])"
| "scan must_advance r pre (c # cs) =
     (case first_match must_advance r pre (c # cs) of
        Some t \<Rightarrow> Some (mk_match pre (c # cs) t)
      | None \<Rightarrow> scan False r (c # pre) cs)"

text \<open>\<^verbatim>\<open>pattern.search(s)\<close>.\<close>

definition re_search :: "rx \<Rightarrow> string \<Rightarrow> match_obj option" where
  "re_search r s = scan False r [] s"

text \<open>
  \<^verbatim>\<open>pattern.finditer(s)\<close>: the matches from left to right, each scan starting where the
  previous match ended. The scans end because a match never gives text back: what it
  has passed and what lies ahead add up to the subject, and after an empty match the next
  match is not empty or lies further right.
\<close>

declare rmatch.simps(7) [simp del]

function finditer_from :: "bool \<Rightarrow> rx \<Rightarrow> string \<Rightarrow> string \<Rightarrow> match_obj list" where
  "finditer_from adv r pre rest =
     (case scan adv r pre rest of
        None \<Rightarrow> []
      | Some m \<Rightarrow>
          m # finditer_from (matched m = []) r (rev (matched m) @ before_rev m) (after m))"
  by pat_completeness auto
termination
proof (relation "measure (\<lambda>(adv, r, pre, rest). 2 * length rest + (if adv then 0 else 1))",
    goal_cases)
  case 1
  show ?case by simp
next
  case (2 adv r pre rest m)
  have rmatch_length:
    "length (passed t) + length (ahead t) = length (passed s) + length (ahead s)
     \<and> length (ahead t) \<le> length (ahead s)"
    if "t \<in> set (rmatch p s)" for p s t
    using that
  proof (induction p s arbitrary: t rule: rmatch.induct)
    case (1 s)
    then show ?case by simp
  next
    case (2 cl s)
    then show ?case by (cases "ahead s") (simp_all split: if_splits)
  next
    case (3 s)
    then show ?case by (simp split: if_splits)
  next
    case (4 a b s)
    from "4.prems" obtain u where u: "u \<in> set (rmatch a s)" "t \<in> set (rmatch b u)"
      by auto
    from "4.IH"(1) [OF u(1)] "4.IH"(2) [OF u] show ?case by simp
  next
    case (5 a b s)
    from "5.prems" have "t \<in> set (rmatch a s) \<or> t \<in> set (rmatch b s)" by simp
    then show ?case using "5.IH" by blast
  next
    case (6 a s)
    from "6.prems" have "t \<in> set (rmatch a s) \<or> t = s" by auto
    then show ?case using "6.IH" by blast
  next
    case (7 a s)
    from "7.prems" have "t = s \<or> (\<exists>u \<in> set (rmatch a s).
        length (ahead u) < length (ahead s) \<and> t \<in> set (rmatch (Star a) u))"
      by (subst (asm) rmatch.simps(7)) (auto split: if_splits)
    then show ?case
    proof
      assume "t = s"
      then show ?thesis by simp
    next
      assume "\<exists>u \<in> set (rmatch a s).
        length (ahead u) < length (ahead s) \<and> t \<in> set (rmatch (Star a) u)"
      then obtain u where u: "u \<in> set (rmatch a s)" "length (ahead u) < length (ahead s)"
        "t \<in> set (rmatch (Star a) u)" by blast
      from "7.IH"(1) [OF u(1)] "7.IH"(2) [OF u] show ?thesis by simp
    qed
  next
    case (8 n a s)
    from "8.prems" obtain u where u: "u \<in> set (rmatch a s)"
      and t: "t = (passed u, ahead u, AList.update n (consumed s u) (captured u))"
      by auto
    from "8.IH" [OF u] show ?case by (simp add: t)
  qed
  have first_match_length:
    "length (matched (mk_match q rs t)) + length (after (mk_match q rs t)) = length rs
     \<and> (a \<longrightarrow> length (ahead t) < length rs)"
    if "first_match a r q rs = Some t" for a q rs t
  proof -
    let ?ok = "\<lambda>t. \<not> a \<or> length (ahead t) < length rs"
    from that obtain ts where "filter ?ok (rmatch r (q, rs, [])) = t # ts"
      by (auto simp: first_match_def split: list.splits)
    then have "t \<in> set (filter ?ok (rmatch r (q, rs, [])))" by simp
    then have mem: "t \<in> set (rmatch r (q, rs, []))" and ok: "?ok t" by simp_all
    from rmatch_length [OF mem] ok show ?thesis
      by (simp add: mk_match_def consumed_def)
  qed
  have scan_length:
    "length (matched m) + length (after m) \<le> length rs
     \<and> (a \<longrightarrow> length (after m) < length rs)"
    if "scan a r q rs = Some m" for a q rs m
    using that
  proof (induction rs arbitrary: a q)
    case Nil
    then obtain t where t: "first_match a r q [] = Some t" and m: "m = mk_match q [] t"
      by auto
    from first_match_length [OF t] show ?case
      by (auto simp: m mk_match_def)
  next
    case (Cons c cs)
    show ?case
    proof (cases "first_match a r q (c # cs)")
      case None
      with Cons.prems have "scan False r (c # q) cs = Some m" by simp
      from Cons.IH [OF this] show ?thesis by simp
    next
      case (Some t)
      with Cons.prems have m: "m = mk_match q (c # cs) t" by simp
      from first_match_length [OF Some] show ?thesis
        by (auto simp: m mk_match_def)
    qed
  qed
  from scan_length [OF 2] show ?case by (cases "matched m") auto
qed

declare finditer_from.simps [simp del]

definition finditer :: "rx \<Rightarrow> string \<Rightarrow> match_obj list" where
  "finditer r s = finditer_from False r [] s"

text \<open>
  \<^verbatim>\<open>pattern.findall(s)\<close> for a pattern with \<open>n\<close> groups (\<open>n\<close> at least 2): one tuple of
  group texts per match, the empty string for a group that took no part.
\<close>

definition re_findall :: "rx \<Rightarrow> nat \<Rightarrow> string \<Rightarrow> string list list" where
  "re_findall r n s =
     map (\<lambda>m. map (\<lambda>i. case group m i of None \<Rightarrow> [] | Some g \<Rightarrow> g) [1..<Suc n])
         (finditer r s)"

text \<open>
  \<^verbatim>\<open>pattern.sub(repl, s, count)\<close> with a literal replacement: the text between the matches
  is kept, each of the first \<open>count\<close> matches (all of them when \<open>count\<close> is 0) becomes
  \<open>repl\<close>.
\<close>

fun sub_build :: "nat \<Rightarrow> match_obj list \<Rightarrow> string \<Rightarrow> string \<Rightarrow> string" where
  "sub_build pos [] repl subject = drop pos subject"
| "sub_build pos (m # ms) repl subject =
     take (length (before_rev m) - pos) (drop pos subject) @ repl
     @ sub_build (length (before_rev m) + length (matched m)) ms repl subject"

definition re_sub :: "rx \<Rightarrow> string \<Rightarrow> string \<Rightarrow> nat \<Rightarrow> string" where
  "re_sub r repl subject count =
     (let ms = finditer r subject
      in sub_build 0 (if count = 0 then ms else take count ms) repl subject)"

subsection \<open>The patterns of the source\<close>

definition digit :: rx where
  "digit = Cls digit_chars"

text \<open>\<^verbatim>\<open>DATE_RE = re.compile(r"\b(\d{2}/\d{2})(?:/(\d{2,4}))?\b")\<close>\<close>

definition DATE_RE :: rx where
  "DATE_RE =
     seqs [WordB,
           Grp 1 (seqs [exactly 2 digit, Cls ''/'', exactly 2 digit]),
           Opt (seqs [Cls ''/'', Grp 2 (between 2 4 digit)]),
           WordB]"

text \<open>
  \<^verbatim>\<open>
  AMOUNT_RE = re.compile(
      r"(?P<neg_par>\()?"
      r"(?P<sign>-)?"
      r"(?P<num>\d{1,3}(?:\.\d{3})*,\d{2}|\d+,\d{2})"
      r"(?P<neg_par2>\))?"
  )
  \<close>
  The named groups are numbered 1 to 4 in the order of their opening parentheses.
\<close>

definition AMOUNT_RE :: rx where
  "AMOUNT_RE =
     seqs [Opt (Grp 1 (Cls ''('')),
           Opt (Grp 2 (Cls ''-'')),
           Grp 3 (Alt (seqs [between 1 3 digit, Star (seqs [Cls ''.'', exactly 3 digit]),
                             Cls '','', exactly 2 digit])
                      (seqs [one_or_more digit, Cls '','', exactly 2 digit])),
           Opt (Grp 4 (Cls '')''))]"

text \<open>The pattern \<^verbatim>\<open>[ \t]+\<close> of \<^verbatim>\<open>normalize_text\<close>.\<close>

definition BLANKS_RE :: rx where
  "BLANKS_RE = one_or_more (Cls [CHR 0x20, CHR 0x09])"

subsection \<open>Parsing helpers\<close>

datatype error = ValueError | JSONDecodeError

text \<open>
  \<^verbatim>\<open>float(s)\<close> on decimal numerals: surrounding white space, an optional sign, digits with
  an optional point and fraction (\<^verbatim>\<open>12\<close>, \<^verbatim>\<open>12.\<close>, \<^verbatim>\<open>12.34\<close>, \<^verbatim>\<open>.5\<close>); anything else is
  a \<^verbatim>\<open>ValueError\<close>. Python's \<^verbatim>\<open>float\<close> also reads exponents, digit-grouping
  underscores and the spellings of infinity and NaN; these forms are not covered here,
  and no text matched by \<open>AMOUNT_RE\<close> leads to them.
\<close>

definition digit_val :: "char \<Rightarrow> int" where
  "digit_val c =
     (case map_of (zip digit_chars [0, 1, 2, 3, 4, 5, 6, 7, 8, 9]) c of
        None \<Rightarrow> 0 | Some d \<Rightarrow> d)"

definition digits_val :: "string \<Rightarrow> int" where
  "digits_val ds = foldl (\<lambda>a c. 10 * a + digit_val c) 0 ds"

definition py_float :: "string \<Rightarrow> error + rat" where
  "py_float s0 =
     (let s = strip s0;
          neg = (s \<noteq> [] \<and> hd s = CHR ''-'');
          body = (if s \<noteq> [] \<and> (hd s = CHR ''-'' \<or> hd s = CHR ''+'') then tl s else s);
          ip = takeWhile (\<lambda>c. c \<in> set digit_chars) body;
          rest = dropWhile (\<lambda>c. c \<in> set digit_chars) body;
          fp = (if rest = [] then [] else tl rest)
      in if (rest = [] \<or> hd rest = CHR ''.'') \<and> list_all (\<lambda>c. c \<in> set digit_chars) fp
            \<and> (ip \<noteq> [] \<or> fp \<noteq> [])
         then Inr ((if neg then - 1 else 1)
                   * (of_int (digits_val ip) + of_int (digits_val fp) / 10 ^ length fp))
         else Inl ValueError)"

text \<open>
  \<^verbatim>\<open>
  def br_money_to_float(s):
      s = s.strip()
      is_paren = s.startswith("(") and s.endswith(")")
      s = s.strip("()")
      s = s.replace("R$", "").replace("BRL", "").strip()
      s = s.replace(".", "").replace(",", ".")
      val = float(s)
      if is_paren:
          val *= -1
      return val
  \<close>
\<close>

definition br_money_to_float :: "string \<Rightarrow> error + rat" where
  "br_money_to_float s0 =
     (let s1 = strip s0;
          is_paren = (startswith s1 ''('' \<and> endswith s1 '')'');
          s2 = strip_set ''()'' s1;
          s3 = strip (replace (replace s2 ''R$'' '''') ''BRL'' '''');
          s4 = replace (replace s3 ''.'' '''') '','' ''.''
      in case py_float s4 of
           Inl e \<Rightarrow> Inl e
         | Inr val \<Rightarrow> Inr (if is_paren then val * (- 1) else val))"

text \<open>\<^verbatim>\<open>def normalize_text(s): return re.sub(r"[ \t]+", " ", s).strip()\<close>\<close>

definition normalize_text :: "string \<Rightarrow> string" where
  "normalize_text s = strip (re_sub BLANKS_RE '' '' s 0)"

text \<open>
  \<^verbatim>\<open>
  @dataclass
  class Lancamento:
      app: str
      data: str
      descricao: str
      valor: float
      pagina: int
  \<close>
\<close>

record Lancamento =
  app :: string
  data :: string
  descricao :: string
  valor :: rat
  pagina :: int

text \<open>How an optional string prints inside an f-string.\<close>

definition fmt :: "string option \<Rightarrow> string" where
  "fmt x = (case x of None \<Rightarrow> ''None'' | Some s \<Rightarrow> s)"

text \<open>
  \<^verbatim>\<open>
  def find_best_date(line):
      m = DATE_RE.search(line)
      if not m:
          return None
      ddmm = m.group(1)
      yyyy = m.group(2)
      if yyyy:
          if len(yyyy) == 2:
              yyyy = "20" + yyyy
          return f"{ddmm}/{yyyy}"
      return ddmm
  \<close>
\<close>

definition find_best_date :: "string \<Rightarrow> string option" where
  "find_best_date line =
     (case re_search DATE_RE line of
        None \<Rightarrow> None
      | Some m \<Rightarrow>
          (let ddmm = group m 1; yyyy = group m 2
           in case yyyy of
                None \<Rightarrow> ddmm
              | Some y \<Rightarrow>
                  if y \<noteq> []
                  then Some (fmt ddmm @ ''/'' @ (if length y = 2 then ''20'' @ y else y))
                  else ddmm))"

text \<open>
  \<^verbatim>\<open>
  def find_best_amount(line):
      matches = list(AMOUNT_RE.finditer(line))
      if not matches:
          return None
      m = matches[-1]
      raw = m.group(0)
      try:
          return br_money_to_float(raw)
      except Exception:
          return None
  \<close>
\<close>

definition find_best_amount :: "string \<Rightarrow> rat option" where
  "find_best_amount line =
     (let matches = finditer AMOUNT_RE line
      in if matches = [] then None
         else (let m = last matches; raw = matched m
               in case br_money_to_float raw of
                    Inr v \<Rightarrow> Some v
                  | Inl e \<Rightarrow> None))"

subsection \<open>Keyword matcher\<close>

text \<open>
  \<^verbatim>\<open>
  def guess_app_from_line(line, keywords):
      up = line.upper()
      for kw in keywords:
          if kw.upper() in up:
              return kw.upper()
      return None
  \<close>
\<close>

fun guess_app_loop :: "string \<Rightarrow> string list \<Rightarrow> string option" where
  "guess_app_loop up [] = None"
| "guess_app_loop up (kw # kws) =
     (if contains up (upper kw) then Some (upper kw) else guess_app_loop up kws)"

definition guess_app_from_line :: "string \<Rightarrow> string list \<Rightarrow> string option" where
  "guess_app_from_line line keywords = guess_app_loop (upper line) keywords"

text \<open>
  The keyword \<open>kw\<close> occurs in \<open>line\<close> case-insensitively: some contiguous segment of the line
  has the same upper-case form as the keyword.
\<close>

definition occurs_ci :: "string \<Rightarrow> string \<Rightarrow> bool" where
  "occurs_ci kw line = (\<exists>pre mid post. line = pre @ mid @ post \<and> upper mid = upper kw)"

subsection \<open>Line extraction engine\<close>

text \<open>
  The description clean-up attempted by \<^verbatim>\<open>extract_candidates_from_text\<close>:
  \<^verbatim>\<open>
      descricao = line
      last_amount = AMOUNT_RE.findall(line)
      if last_amount:
          descricao = AMOUNT_RE.sub("", descricao, count=1)
          if len(descricao.strip()) < 3:
              descricao = line
  \<close>
  The value of \<^verbatim>\<open>descricao\<close> after these statements.
\<close>

definition strip_amount_attempt :: "string \<Rightarrow> string" where
  "strip_amount_attempt line =
     (let descricao = line;
          last_amount = re_findall AMOUNT_RE 4 line
      in if last_amount \<noteq> []
         then (let descricao = re_sub AMOUNT_RE '''' descricao 1
               in if length (strip descricao) < 3 then line else descricao)
         else descricao)"

text \<open>
  The body of the loop of \<^verbatim>\<open>extract_candidates_from_text\<close> for one raw line: \<open>None\<close>
  where the source says \<^verbatim>\<open>continue\<close>, the record it appends otherwise.
  \<^verbatim>\<open>
      line = normalize_text(raw_line)
      if not line:
          continue
      app = guess_app_from_line(line, keywords)
      if not app:
          continue
      data = find_best_date(line)
      valor = find_best_amount(line)
      if valor is None:
          continue
      descricao = line
      ... (the clean-up above) ...
      results.append(Lancamento(app=app, data=data or "", descricao=line,
                                valor=valor, pagina=page_index + 1))
  \<close>
\<close>

definition extract_line :: "string \<Rightarrow> int \<Rightarrow> string list \<Rightarrow> Lancamento option" where
  "extract_line raw_line page_index keywords =
     (let line = normalize_text raw_line
      in if line = [] then None
         else (case guess_app_from_line line keywords of
                 None \<Rightarrow> None
               | Some a \<Rightarrow>
                   if a = [] then None
                   else (let d = find_best_date line;
                             v = find_best_amount line
                         in case v of
                              None \<Rightarrow> None
                            | Some amount \<Rightarrow>
                                (let descricao_clean = strip_amount_attempt line
                                 in Some \<lparr>app = a,
                                          data = (case d of None \<Rightarrow> '''' | Some t \<Rightarrow> t),
                                          descricao = line,
                                          valor = amount,
                                          pagina = page_index + 1\<rparr>))))"

fun extract_loop :: "string list \<Rightarrow> int \<Rightarrow> string list \<Rightarrow> Lancamento list \<Rightarrow> Lancamento list"
  where
  "extract_loop [] page_index keywords results = results"
| "extract_loop (raw_line # raw_lines) page_index keywords results =
     (case extract_line raw_line page_index keywords of
        None \<Rightarrow> extract_loop raw_lines page_index keywords results
      | Some l \<Rightarrow> extract_loop raw_lines page_index keywords (results @ [l]))"

definition extract_candidates_from_text :: "string \<Rightarrow> int \<Rightarrow> string list \<Rightarrow> Lancamento list"
  where
  "extract_candidates_from_text text page_index keywords =
     extract_loop (splitlines text) page_index keywords []"

text \<open>
  The simplified engine: the same loop with the description clean-up left out.
\<close>

definition extract_line_simple :: "string \<Rightarrow> int \<Rightarrow> string list \<Rightarrow> Lancamento option" where
  "extract_line_simple raw_line page_index keywords =
     (let line = normalize_text raw_line
      in if line = [] then None
         else (case guess_app_from_line line keywords of
                 None \<Rightarrow> None
               | Some a \<Rightarrow>
                   if a = [] then None
                   else (case find_best_amount line of
                           None \<Rightarrow> None
                         | Some amount \<Rightarrow>
                             Some \<lparr>app = a,
                                   data = (case find_best_date line of
                                             None \<Rightarrow> '''' | Some t \<Rightarrow> t),
                                   descricao = line,
                                   valor = amount,
                                   pagina = page_index + 1\<rparr>)))"

fun extract_loop_simple ::
  "string list \<Rightarrow> int \<Rightarrow> string list \<Rightarrow> Lancamento list \<Rightarrow> Lancamento list" where
  "extract_loop_simple [] page_index keywords results = results"
| "extract_loop_simple (raw_line # raw_lines) page_index keywords results =
     (case extract_line_simple raw_line page_index keywords of
        None \<Rightarrow> extract_loop_simple raw_lines page_index keywords results
      | Some l \<Rightarrow> extract_loop_simple raw_lines page_index keywords (results @ [l]))"

definition extract_candidates_simple :: "string \<Rightarrow> int \<Rightarrow> string list \<Rightarrow> Lancamento list"
  where
  "extract_candidates_simple text page_index keywords =
     extract_loop_simple (splitlines text) page_index keywords []"

text \<open>
  \<^verbatim>\<open>
  def read_pdf_extract(pdf_path, keywords):
      lancs = []
      with pdfplumber.open(str(pdf_path)) as pdf:
          for i, page in enumerate(pdf.pages):
              text = page.extract_text() or ""
              if not text.strip():
                  continue
              lancs.extend(extract_candidates_from_text(text, i, keywords))
      return lancs
  \<close>
  The document is the list of what \<^verbatim>\<open>extract_text\<close> returns for its pages.
\<close>

fun read_pages :: "string option list \<Rightarrow> int \<Rightarrow> string list \<Rightarrow> Lancamento list \<Rightarrow> Lancamento list"
  where
  "read_pages [] i keywords lancs = lancs"
| "read_pages (page # pages) i keywords lancs =
     (let text = (case page of None \<Rightarrow> '''' | Some t \<Rightarrow> t)
      in if strip text = [] then read_pages pages (i + 1) keywords lancs
         else read_pages pages (i + 1) keywords
                (lancs @ extract_candidates_from_text text i keywords))"

definition read_pdf_extract :: "string option list \<Rightarrow> string list \<Rightarrow> Lancamento list" where
  "read_pdf_extract pages keywords = read_pages pages 0 keywords []"

subsection \<open>Totals of the summary sheet\<close>

text \<open>
  The part of \<^verbatim>\<open>write_xlsx\<close> that fills the sheet \<^verbatim>\<open>Resumo\<close>:
  \<^verbatim>\<open>
      totals: Dict[str, float] = {}
      for l in lancs:
          totals[l.app] = totals.get(l.app, 0.0) + l.valor
      for kw in keywords:
          key = kw.upper()
          ws2.append([key, round(totals.get(key, 0.0), 2)])
      total_geral = sum(totals.values())
      ws2.append(["TOTAL GERAL", round(total_geral, 2)])
  \<close>
  The dictionary is an association list in insertion order.
\<close>

definition dict_get :: "('k \<times> 'v) list \<Rightarrow> 'k \<Rightarrow> 'v \<Rightarrow> 'v" where
  "dict_get d k dflt = (case map_of d k of None \<Rightarrow> dflt | Some v \<Rightarrow> v)"

fun totals_loop :: "Lancamento list \<Rightarrow> (string \<times> rat) list \<Rightarrow> (string \<times> rat) list" where
  "totals_loop [] totals = totals"
| "totals_loop (l # ls) totals =
     totals_loop ls (AList.update (app l) (dict_get totals (app l) 0 + valor l) totals)"

text \<open>
  \<^verbatim>\<open>round(x, 2)\<close> on exact values: the nearest multiple of 0.01, a tie going to the even
  multiple.
\<close>

definition round_half_even :: "rat \<Rightarrow> int" where
  "round_half_even x =
     (let f = \<lfloor>x\<rfloor>; d = x - of_int f
      in if d < 1 / 2 then f
         else if 1 / 2 < d then f + 1
         else if even f then f else f + 1)"

definition py_round2 :: "rat \<Rightarrow> rat" where
  "py_round2 x = of_int (round_half_even (x * 100)) / 100"

definition resumo_term_rows :: "Lancamento list \<Rightarrow> string list \<Rightarrow> (string \<times> rat) list" where
  "resumo_term_rows lancs keywords =
     (let totals = totals_loop lancs []
      in map (\<lambda>kw. (upper kw, py_round2 (dict_get totals (upper kw) 0))) keywords)"

definition resumo_total_geral :: "Lancamento list \<Rightarrow> rat" where
  "resumo_total_geral lancs =
     (let totals = totals_loop lancs []
      in py_round2 (sum_list (map snd totals)))"

definition resumo_rows :: "Lancamento list \<Rightarrow> string list \<Rightarrow> (string \<times> rat) list" where
  "resumo_rows lancs keywords =
     resumo_term_rows lancs keywords @ [(''TOTAL GERAL'', resumo_total_geral lancs)]"

subsection \<open>Keyword store\<close>

text \<open>
  The keywords file is missing, or not readable as the expected document (the JSON
  library raises), or a document whose entries under \<^verbatim>\<open>"keywords"\<close>, each passed through
  \<^verbatim>\<open>str\<close>, are the given list (empty when the key is absent). The store also counts the
  calls of \<^verbatim>\<open>save_keywords\<close>.
\<close>

datatype kwfile = Missing | Unreadable | Document "string list"

record store =
  content :: kwfile
  saves :: nat

text \<open>
  \<^verbatim>\<open>
  def load_keywords(path):
      if not path.exists():
          return ["UBER", "99"]
      data = json.loads(path.read_text(encoding="utf-8"))
      kws = data.get("keywords", [])
      return [str(k).strip() for k in kws if str(k).strip()]
  \<close>
\<close>

definition load_keywords :: "kwfile \<Rightarrow> error + string list" where
  "load_keywords f =
     (case f of
        Missing \<Rightarrow> Inr [''UBER'', ''99'']
      | Unreadable \<Rightarrow> Inl JSONDecodeError
      | Document kws \<Rightarrow> Inr (map strip (filter (\<lambda>k. strip k \<noteq> []) kws)))"

text \<open>\<^verbatim>\<open>save_keywords(path, keywords)\<close> writes the document with exactly these keywords.\<close>

definition save_keywords :: "store \<Rightarrow> string list \<Rightarrow> store" where
  "save_keywords st keywords = \<lparr>content = Document keywords, saves = saves st + 1\<rparr>"

text \<open>
  \<^verbatim>\<open>
  def add_keyword(path, keyword):
      keyword = keyword.strip()
      if not keyword:
          raise ValueError("Keyword vazia.")
      kws = load_keywords(path)
      up = keyword.upper()
      if up not in [k.upper() for k in kws]:
          kws.append(keyword)
          save_keywords(path, kws)
  \<close>
\<close>

definition add_keyword :: "store \<Rightarrow> string \<Rightarrow> (error + unit) \<times> store" where
  "add_keyword st keyword0 =
     (let keyword = strip keyword0
      in if keyword = [] then (Inl ValueError, st)
         else (case load_keywords (content st) of
                 Inl e \<Rightarrow> (Inl e, st)
               | Inr kws \<Rightarrow>
                   (let up = upper keyword
                    in if up \<notin> set (map upper kws)
                       then (Inr (), save_keywords st (kws @ [keyword]))
                       else (Inr (), st))))"

text \<open>
  \<^verbatim>\<open>
  def remove_keyword(path, keyword):
      keyword = keyword.strip()
      if not keyword:
          raise ValueError("Keyword vazia.")
      kws = load_keywords(path)
      target = keyword.upper()
      filtered = [k for k in kws if k.upper() != target]
      save_keywords(path, filtered)
  \<close>
\<close>

definition remove_keyword :: "store \<Rightarrow> string \<Rightarrow> (error + unit) \<times> store" where
  "remove_keyword st keyword0 =
     (let keyword = strip keyword0
      in if keyword = [] then (Inl ValueError, st)
         else (case load_keywords (content st) of
                 Inl e \<Rightarrow> (Inl e, st)
               | Inr kws \<Rightarrow>
                   (let target = upper keyword;
                        filtered = filter (\<lambda>k. upper k \<noteq> target) kws
                    in (Inr (), save_keywords st filtered))))"

subsection \<open>Vocabulary of the properties\<close>

text \<open>
  A Brazilian numeral is written as integer digits, which may be grouped by dots, a comma
  and decimal digits. \<open>grouped_digits\<close> holds of an integer part (digits and dots, a
  digit first), \<open>is_digits\<close> of a non-empty run of digits, and \<open>numeral_value b c\<close> is
  the number that the integer part \<open>b\<close> and the decimals \<open>c\<close> denote.
\<close>

definition is_digits :: "string \<Rightarrow> bool" where
  "is_digits s = (s \<noteq> [] \<and> list_all (\<lambda>c. c \<in> set digit_chars) s)"

definition grouped_digits :: "string \<Rightarrow> bool" where
  "grouped_digits b =
     (b \<noteq> [] \<and> hd b \<in> set digit_chars
      \<and> list_all (\<lambda>c. c \<in> set digit_chars \<or> c = CHR ''.'') b)"

definition numeral_value :: "string \<Rightarrow> string \<Rightarrow> rat" where
  "numeral_value b c =
     of_int (digits_val (filter (\<lambda>x. x \<noteq> CHR ''.'') b))
     + of_int (digits_val c) / 10 ^ length c"

text \<open>An amount that is a whole number of cents: it has at most two decimals.\<close>

definition whole_cents :: "rat \<Rightarrow> bool" where
  "whole_cents v = (of_int \<lfloor>v * 100\<rfloor> = v * 100)"

text \<open>
  The words of a pattern, without regard to the order in which the matcher tries them
  and to the text around a match (a word boundary is the empty word).
\<close>

primrec lang :: "rx \<Rightarrow> string \<Rightarrow> bool" where
  "lang Eps = (\<lambda>w. w = [])"
| "lang (Cls cl) = (\<lambda>w. \<exists>c \<in> set cl. w = [c])"
| "lang WordB = (\<lambda>w. w = [])"
| "lang (Seq a b) = (\<lambda>w. \<exists>u v. w = u @ v \<and> lang a u \<and> lang b v)"
| "lang (Alt a b) = (\<lambda>w. lang a w \<or> lang b w)"
| "lang (Opt a) = (\<lambda>w. w = [] \<or> lang a w)"
| "lang (Star a) = (\<lambda>w. \<exists>ws. w = concat ws \<and> list_all (lang a) ws)"
| "lang (Grp n a) = lang a"

section \<open>Properties\<close>

lemma contains_iff: "contains s sub = (\<exists>pre post. s = pre @ sub @ post)"
proof (induction s)
  case Nil
  then show ?case by auto
next
  case (Cons c cs)
  show ?case
  proof
    assume "contains (c # cs) sub"
    then consider "prefix sub (c # cs)" | "contains cs sub" by auto
    then show "\<exists>pre post. c # cs = pre @ sub @ post"
    proof cases
      case 1
      then obtain post where "c # cs = sub @ post" by (auto simp: prefix_def)
      then have "c # cs = [] @ sub @ post" by simp
      then show ?thesis by blast
    next
      case 2
      with Cons.IH obtain pre post where "cs = pre @ sub @ post" by blast
      then have "c # cs = (c # pre) @ sub @ post" by simp
      then show ?thesis by blast
    qed
  next
    assume "\<exists>pre post. c # cs = pre @ sub @ post"
    then obtain pre post where eq: "c # cs = pre @ sub @ post" by blast
    show "contains (c # cs) sub"
    proof (cases pre)
      case Nil
      with eq have "prefix sub (c # cs)" by (simp add: prefix_def)
      then show ?thesis by simp
    next
      case (Cons p ps)
      with eq have "cs = ps @ sub @ post" by simp
      with Cons.IH have "contains cs sub" by blast
      then show ?thesis by simp
    qed
  qed
qed

lemma upper_append: "upper (a @ b) = upper a @ upper b"
  by (simp add: upper_def)

lemma length_upper: "length (upper s) = length s"
  by (simp add: upper_def)

lemma contains_upper_iff: "contains (upper line) (upper kw) = occurs_ci kw line"
proof
  assume "contains (upper line) (upper kw)"
  then obtain p q where eq: "upper line = p @ upper kw @ q"
    by (auto simp: contains_iff)
  define n where "n = length p"
  define m where "m = length kw"
  have split: "line = take n line @ take m (drop n line) @ drop m (drop n line)"
    by (simp only: append_take_drop_id)
  have "upper (take m (drop n line)) = take m (drop n (upper line))"
    by (simp add: upper_def take_map drop_map)
  also have "\<dots> = upper kw"
    by (simp add: eq n_def m_def length_upper)
  finally have "upper (take m (drop n line)) = upper kw" .
  with split show "occurs_ci kw line"
    unfolding occurs_ci_def by blast
next
  assume "occurs_ci kw line"
  then obtain pre mid post where "line = pre @ mid @ post" "upper mid = upper kw"
    unfolding occurs_ci_def by blast
  then have "upper line = upper pre @ upper kw @ upper post"
    by (simp add: upper_append)
  then show "contains (upper line) (upper kw)"
    unfolding contains_iff by blast
qed

lemma guess_app_loop_find:
  "guess_app_loop (upper line) kws = map_option upper (find (\<lambda>kw. occurs_ci kw line) kws)"
  by (induction kws) (simp_all add: contains_upper_iff)


subsection \<open>Keyword matcher: first keyword in list order wins\<close>

lemma guess_app_example:
  "guess_app_from_line ''trip uber via 99app'' [''99'', ''UBER''] = Some ''99''"
  by code_simp

text \<open>
  Claim C3. For every line and every ordered keyword list, the keyword matcher returns
  the upper-case form of the first keyword, in list order, that occurs in the line when
  case is ignored, and nothing when no keyword occurs. Where several keywords occur, the
  earliest in the list wins whatever its position in the line: with the list
  \<open>[99, UBER]\<close> the line \<open>trip uber via 99app\<close>, in which \<open>uber\<close> comes first, is
  matched as \<open>99\<close>.
\<close>

theorem keyword_matcher_first_in_list_order:
  "guess_app_from_line line keywords
     = map_option upper (find (\<lambda>kw. occurs_ci kw line) keywords)
   \<and> guess_app_from_line ''trip uber via 99app'' [''99'', ''UBER''] = Some ''99''"
  using guess_app_example
  by (simp add: guess_app_from_line_def guess_app_loop_find)

subsection \<open>End-to-end scenario\<close>

lemma scenario_records:
  "read_pdf_extract
     [Some (''05/03 UBER*TRIP 18,50'' @ [CHR 0x0A] @ ''06/03 99POP 12,00'' @ [CHR 0x0A]
            @ ''marketing text mentioning uber with no price'')]
     [''UBER'', ''99'']
   = [\<lparr>app = ''UBER'', data = ''05/03'', descricao = ''05/03 UBER*TRIP 18,50'',
        valor = 37 / 2, pagina = 1\<rparr>,
      \<lparr>app = ''99'', data = ''06/03'', descricao = ''06/03 99POP 12,00'',
        valor = 12, pagina = 1\<rparr>]"
  by code_simp

lemma scenario_totals:
  "resumo_rows
     [\<lparr>app = ''UBER'', data = ''05/03'', descricao = ''05/03 UBER*TRIP 18,50'',
        valor = 37 / 2, pagina = 1\<rparr>,
      \<lparr>app = ''99'', data = ''06/03'', descricao = ''06/03 99POP 12,00'',
        valor = 12, pagina = 1\<rparr>]
     [''UBER'', ''99'']
   = [(''UBER'', 37 / 2), (''99'', 12), (''TOTAL GERAL'', 61 / 2)]"
  by code_simp

text \<open>
  Claim C1. With the keywords \<open>UBER\<close> and \<open>99\<close> and one page whose text is the three
  lines \<open>05/03 UBER*TRIP 18,50\<close>, \<open>06/03 99POP 12,00\<close> and
  \<open>marketing text mentioning uber with no price\<close>, the engine produces exactly two
  records (one per priced line), and the summary rows are \<open>UBER\<close> with 18.50,
  \<open>99\<close> with 12.00 and \<open>TOTAL GERAL\<close> with 30.50.
\<close>

theorem end_to_end_scenario:
  "length (read_pdf_extract
     [Some (''05/03 UBER*TRIP 18,50'' @ [CHR 0x0A] @ ''06/03 99POP 12,00'' @ [CHR 0x0A]
            @ ''marketing text mentioning uber with no price'')]
     [''UBER'', ''99'']) = 2
   \<and> map (\<lambda>l. (app l, valor l)) (read_pdf_extract
     [Some (''05/03 UBER*TRIP 18,50'' @ [CHR 0x0A] @ ''06/03 99POP 12,00'' @ [CHR 0x0A]
            @ ''marketing text mentioning uber with no price'')]
     [''UBER'', ''99'']) = [(''UBER'', 37 / 2), (''99'', 12)]
   \<and> resumo_rows (read_pdf_extract
     [Some (''05/03 UBER*TRIP 18,50'' @ [CHR 0x0A] @ ''06/03 99POP 12,00'' @ [CHR 0x0A]
            @ ''marketing text mentioning uber with no price'')]
     [''UBER'', ''99'']) [''UBER'', ''99'']
     = [(''UBER'', 37 / 2), (''99'', 12), (''TOTAL GERAL'', 61 / 2)]"
  by (simp only: scenario_records scenario_totals) simp

subsection \<open>Date extractor\<close>

text \<open>
  Claim C5. The date extractor is to return the first token of the shape dd/mm, dd/mm/yy
  or dd/mm/yyyy, a two-digit year completed to four digits. The pattern of the source
  admits a year of two to four digits, so a three-digit year is taken as well and
  returned as it stands: for the line \<open>31/01/202 UBER 10,00\<close> the result is
  \<open>31/01/202\<close>, which has none of the three shapes.
\<close>

theorem find_best_date_three_digit_year:
  "find_best_date ''31/01/202 UBER 10,00'' = Some ''31/01/202''"
  by code_simp

subsection \<open>Line extraction engine: records and descriptions\<close>

lemma extract_loop_map_filter:
  "extract_loop raw_lines i kws results
     = results @ List.map_filter (\<lambda>raw. extract_line raw i kws) raw_lines"
  by (induction raw_lines arbitrary: results) (simp_all add: map_filter_simps split: option.split)

lemma extract_loop_simple_map_filter:
  "extract_loop_simple raw_lines i kws results
     = results @ List.map_filter (\<lambda>raw. extract_line_simple raw i kws) raw_lines"
  by (induction raw_lines arbitrary: results) (simp_all add: map_filter_simps split: option.split)

lemma extract_line_simple_eq: "extract_line raw i kws = extract_line_simple raw i kws"
  by (simp add: extract_line_def extract_line_simple_def Let_def split: option.split)

lemma extract_candidates_map_filter:
  "extract_candidates_from_text text i kws
     = List.map_filter (\<lambda>raw. extract_line raw i kws) (splitlines text)"
  by (simp add: extract_candidates_from_text_def extract_loop_map_filter)

lemma extract_line_SomeD:
  assumes "extract_line raw i kws = Some r"
  shows "normalize_text raw \<noteq> []"
    and "guess_app_from_line (normalize_text raw) kws = Some (app r)"
    and "app r \<noteq> []"
    and "find_best_amount (normalize_text raw) = Some (valor r)"
    and "data r = (case find_best_date (normalize_text raw) of None \<Rightarrow> [] | Some d \<Rightarrow> d)"
    and "descricao r = normalize_text raw"
    and "pagina r = i + 1"
  using assms
  by (auto simp: extract_line_def Let_def split: if_splits option.splits)

lemma extract_line_no_amount:
  "find_best_amount (normalize_text raw) = None \<Longrightarrow> extract_line raw i kws = None"
  by (simp add: extract_line_def Let_def split: option.split)

lemma set_sub_build: "set (sub_build pos ms repl subject) \<subseteq> set subject \<union> set repl"
proof (induction ms arbitrary: pos)
  case Nil
  show ?case using set_drop_subset [of pos subject] by auto
next
  case (Cons m ms)
  have "set (take (length (before_rev m) - pos) (drop pos subject)) \<subseteq> set subject"
    using set_take_subset set_drop_subset by fast
  with Cons.IH [of "length (before_rev m) + length (matched m)"] show ?case by auto
qed

lemma strip_set_all: "set s \<subseteq> set chars \<Longrightarrow> strip_set chars s = []"
proof -
  assume "set s \<subseteq> set chars"
  then have a: "dropWhile (\<lambda>c. c \<in> set chars) s = []" by (induction s) simp_all
  show ?thesis unfolding strip_set_def a by simp
qed

lemma normalize_text_blank:
  assumes "\<forall>c \<in> set raw. c \<in> set space_chars"
  shows "normalize_text raw = []"
proof -
  have "set (re_sub BLANKS_RE '' '' raw 0) \<subseteq> set raw \<union> set '' ''"
    unfolding re_sub_def Let_def by (rule set_sub_build)
  moreover have "set '' '' \<subseteq> set space_chars" by (simp add: space_chars_def)
  ultimately have "set (re_sub BLANKS_RE '' '' raw 0) \<subseteq> set space_chars"
    using assms by auto
  then show ?thesis by (simp add: normalize_text_def strip_def strip_set_all)
qed

lemma extract_line_blank:
  "\<forall>c \<in> set raw. c \<in> set space_chars \<Longrightarrow> extract_line raw i kws = None"
  by (simp add: extract_line_def normalize_text_blank)

lemma undated_record_example:
  "extract_candidates_from_text ''UBER 12,00'' 0 [''UBER'']
   = [\<lparr>app = ''UBER'', data = '''', descricao = ''UBER 12,00'', valor = 12, pagina = 1\<rparr>]"
  by code_simp

text \<open>
  Claim C7. The records of a page are the records of its lines, in order, each line
  giving one record or none. A line that gives a record has a matched term, which is
  not empty, and a resolved amount, and these are the term and amount of the record; the
  date of the record is the date found in the line, or the empty string when there is
  none (the line \<open>UBER 12,00\<close> gives a record with an empty date). A line in which no
  amount can be found gives no record, whether or not a keyword matches it, and a line
  of white space only (the empty line included) gives no record.
\<close>

theorem records_have_term_and_amount:
  "extract_candidates_from_text text page_index keywords
     = List.map_filter (\<lambda>raw. extract_line raw page_index keywords) (splitlines text)
   \<and> (extract_line raw page_index keywords = Some r \<longrightarrow>
        guess_app_from_line (normalize_text raw) keywords = Some (app r) \<and> app r \<noteq> []
        \<and> find_best_amount (normalize_text raw) = Some (valor r)
        \<and> data r = (case find_best_date (normalize_text raw) of None \<Rightarrow> [] | Some d \<Rightarrow> d))
   \<and> (find_best_amount (normalize_text raw) = None \<longrightarrow>
        extract_line raw page_index keywords = None)
   \<and> ((\<forall>c \<in> set raw. c \<in> set space_chars) \<longrightarrow>
        extract_line raw page_index keywords = None)
   \<and> map data (extract_candidates_from_text ''UBER 12,00'' 0 [''UBER'']) = ['''']"
proof (intro conjI impI)
  show "extract_candidates_from_text text page_index keywords
     = List.map_filter (\<lambda>raw. extract_line raw page_index keywords) (splitlines text)"
    by (rule extract_candidates_map_filter)
next
  assume "extract_line raw page_index keywords = Some r"
  from extract_line_SomeD [OF this]
  show "guess_app_from_line (normalize_text raw) keywords = Some (app r)"
    and "app r \<noteq> []"
    and "find_best_amount (normalize_text raw) = Some (valor r)"
    and "data r = (case find_best_date (normalize_text raw) of None \<Rightarrow> [] | Some d \<Rightarrow> d)"
    by simp_all
next
  assume "find_best_amount (normalize_text raw) = None"
  then show "extract_line raw page_index keywords = None"
    by (rule extract_line_no_amount)
next
  assume "\<forall>c \<in> set raw. c \<in> set space_chars"
  then show "extract_line raw page_index keywords = None"
    by (rule extract_line_blank)
next
  show "map data (extract_candidates_from_text ''UBER 12,00'' 0 [''UBER'']) = ['''']"
    by (simp add: undated_record_example)
qed

lemma witness_line_with_record:
  "extract_line ''05/03 UBER*TRIP 18,50'' 0 [''UBER'', ''99'']
   = Some \<lparr>app = ''UBER'', data = ''05/03'', descricao = ''05/03 UBER*TRIP 18,50'',
            valor = 37 / 2, pagina = 1\<rparr>"
  by code_simp

lemma witness_line_without_amount:
  "find_best_amount (normalize_text ''marketing text mentioning uber with no price'') = None"
  by code_simp

theorem records_have_term_and_amount_witness:
  "extract_line ''05/03 UBER*TRIP 18,50'' 0 [''UBER'', ''99'']
     = Some \<lparr>app = ''UBER'', data = ''05/03'', descricao = ''05/03 UBER*TRIP 18,50'',
              valor = 37 / 2, pagina = 1\<rparr>
   \<and> guess_app_from_line (normalize_text ''05/03 UBER*TRIP 18,50'') [''UBER'', ''99'']
       = Some ''UBER''
   \<and> find_best_amount (normalize_text ''05/03 UBER*TRIP 18,50'') = Some (37 / 2)
   \<and> find_best_amount (normalize_text ''marketing text mentioning uber with no price'') = None
   \<and> extract_line ''marketing text mentioning uber with no price'' 0 [''UBER'', ''99''] = None
   \<and> list_all (\<lambda>c. c \<in> set space_chars) ''   ''
   \<and> extract_line ''   '' 0 [''UBER'', ''99''] = None"
proof -
  have blank: "\<forall>c \<in> set ''   ''. c \<in> set space_chars"
    by (simp add: space_chars_def)
  note a = records_have_term_and_amount
    [of "''05/03 UBER*TRIP 18,50''" 0 "[''UBER'', ''99'']" "''05/03 UBER*TRIP 18,50''"
        "\<lparr>app = ''UBER'', data = ''05/03'', descricao = ''05/03 UBER*TRIP 18,50'',
          valor = 37 / 2, pagina = 1\<rparr>"]
  note b = records_have_term_and_amount
    [of "''x''" 0 "[''UBER'', ''99'']" "''marketing text mentioning uber with no price''"]
  note c = records_have_term_and_amount [of "''x''" 0 "[''UBER'', ''99'']" "''   ''"]
  from a witness_line_with_record
  have "guess_app_from_line (normalize_text ''05/03 UBER*TRIP 18,50'') [''UBER'', ''99'']
          = Some ''UBER''"
    and "find_best_amount (normalize_text ''05/03 UBER*TRIP 18,50'') = Some (37 / 2)"
    by simp_all
  moreover from b witness_line_without_amount
  have "extract_line ''marketing text mentioning uber with no price'' 0 [''UBER'', ''99'']
          = None"
    by blast
  moreover from c blank have "extract_line ''   '' 0 [''UBER'', ''99''] = None"
    by blast
  moreover from blank have "list_all (\<lambda>c. c \<in> set space_chars) ''   ''"
    by (simp only: list_all_iff)
  ultimately show ?thesis
    using witness_line_with_record witness_line_without_amount by blast
qed

text \<open>
  Claim C8. The description of every record is the whole normalised line it came from:
  the attempt to cut the amount out of the description never reaches the record, and the
  engine returns, for every page text, page index and keyword list, exactly what the
  simplified engine without that attempt returns.
\<close>

theorem description_is_normalized_line:
  "extract_candidates_from_text text page_index keywords
     = extract_candidates_simple text page_index keywords
   \<and> (\<forall>r \<in> set (extract_candidates_from_text text page_index keywords).
        \<exists>raw \<in> set (splitlines text). descricao r = normalize_text raw)"
proof
  have "(\<lambda>raw. extract_line raw page_index keywords)
          = (\<lambda>raw. extract_line_simple raw page_index keywords)"
    by (simp add: extract_line_simple_eq)
  then show "extract_candidates_from_text text page_index keywords
     = extract_candidates_simple text page_index keywords"
    by (simp add: extract_candidates_from_text_def extract_candidates_simple_def
        extract_loop_map_filter extract_loop_simple_map_filter)
next
  show "\<forall>r \<in> set (extract_candidates_from_text text page_index keywords).
        \<exists>raw \<in> set (splitlines text). descricao r = normalize_text raw"
  proof
    fix r
    assume "r \<in> set (extract_candidates_from_text text page_index keywords)"
    then obtain raw where raw: "raw \<in> set (splitlines text)"
      and r: "extract_line raw page_index keywords = Some r"
      by (auto simp: extract_candidates_map_filter map_filter_def)
    from extract_line_SomeD(6) [OF r] raw
    show "\<exists>raw \<in> set (splitlines text). descricao r = normalize_text raw" by blast
  qed
qed

lemma witness_spaced_line:
  "extract_candidates_from_text ''05/03   UBER*TRIP    18,50'' 0 [''UBER'']
   = [\<lparr>app = ''UBER'', data = ''05/03'', descricao = ''05/03 UBER*TRIP 18,50'',
        valor = 37 / 2, pagina = 1\<rparr>]"
  by code_simp

theorem description_is_normalized_line_witness:
  "\<lparr>app = ''UBER'', data = ''05/03'', descricao = ''05/03 UBER*TRIP 18,50'',
     valor = 37 / 2, pagina = 1\<rparr>
     \<in> set (extract_candidates_from_text ''05/03   UBER*TRIP    18,50'' 0 [''UBER''])
   \<and> extract_candidates_simple ''05/03   UBER*TRIP    18,50'' 0 [''UBER'']
       = [\<lparr>app = ''UBER'', data = ''05/03'', descricao = ''05/03 UBER*TRIP 18,50'',
            valor = 37 / 2, pagina = 1\<rparr>]
   \<and> (\<exists>raw \<in> set (splitlines ''05/03   UBER*TRIP    18,50'').
         ''05/03 UBER*TRIP 18,50'' = normalize_text raw)"
proof -
  note t = description_is_normalized_line [of "''05/03   UBER*TRIP    18,50''" 0 "[''UBER'']"]
  from t have eq: "extract_candidates_from_text ''05/03   UBER*TRIP    18,50'' 0 [''UBER'']
      = extract_candidates_simple ''05/03   UBER*TRIP    18,50'' 0 [''UBER'']"
    by (rule conjunct1)
  from t have every: "\<forall>r \<in> set (extract_candidates_from_text ''05/03   UBER*TRIP    18,50'' 0
        [''UBER'']).
      \<exists>raw \<in> set (splitlines ''05/03   UBER*TRIP    18,50''). descricao r = normalize_text raw"
    by (rule conjunct2)
  have mem: "\<lparr>app = ''UBER'', data = ''05/03'', descricao = ''05/03 UBER*TRIP 18,50'',
     valor = 37 / 2, pagina = 1\<rparr>
     \<in> set (extract_candidates_from_text ''05/03   UBER*TRIP    18,50'' 0 [''UBER''])"
    by (simp add: witness_spaced_line)
  from every mem have "\<exists>raw \<in> set (splitlines ''05/03   UBER*TRIP    18,50'').
      descricao \<lparr>app = ''UBER'', data = ''05/03'', descricao = ''05/03 UBER*TRIP 18,50'',
        valor = 37 / 2, pagina = 1\<rparr> = normalize_text raw"
    by (rule bspec)
  then have ex: "\<exists>raw \<in> set (splitlines ''05/03   UBER*TRIP    18,50'').
      ''05/03 UBER*TRIP 18,50'' = normalize_text raw"
    by simp
  from eq have simple: "extract_candidates_simple ''05/03   UBER*TRIP    18,50'' 0 [''UBER'']
       = [\<lparr>app = ''UBER'', data = ''05/03'', descricao = ''05/03 UBER*TRIP 18,50'',
            valor = 37 / 2, pagina = 1\<rparr>]"
    by (simp add: witness_spaced_line)
  from mem simple ex show ?thesis by (intro conjI)
qed

subsection \<open>Keyword store: add and remove\<close>

lemma dropWhile_last:
  "dropWhile P xs \<noteq> [] \<Longrightarrow> last (dropWhile P xs) = last xs"
  by (induction xs) (auto split: if_splits)

lemma strip_set_ends:
  assumes "strip_set cs s \<noteq> []"
  shows "hd (strip_set cs s) \<notin> set cs" and "last (strip_set cs s) \<notin> set cs"
proof -
  let ?P = "\<lambda>c. c \<in> set cs"
  let ?u = "dropWhile ?P s"
  let ?v = "dropWhile ?P (rev ?u)"
  from assms have v: "?v \<noteq> []" by (simp add: strip_set_def)
  have u: "?u \<noteq> []"
  proof
    assume "?u = []"
    then have "?v = []" by (simp only: rev.simps dropWhile.simps)
    with v show False by simp
  qed
  have "\<not> ?P (hd ?v)" using v by (rule hd_dropWhile)
  then show "last (strip_set cs s) \<notin> set cs"
    using v by (simp add: strip_set_def last_rev)
  have "last ?v = last (rev ?u)" using v by (rule dropWhile_last)
  also have "\<dots> = hd ?u" using u by (simp add: last_rev)
  finally have "hd (strip_set cs s) = hd ?u" using v by (simp add: strip_set_def hd_rev)
  moreover have "\<not> ?P (hd ?u)" using u by (rule hd_dropWhile)
  ultimately show "hd (strip_set cs s) \<notin> set cs" by simp
qed

lemma strip_set_id:
  assumes "s = [] \<or> (hd s \<notin> set cs \<and> last s \<notin> set cs)"
  shows "strip_set cs s = s"
proof (cases "s = []")
  case True
  then show ?thesis by (simp add: strip_set_def)
next
  case False
  with assms have h: "hd s \<notin> set cs" and l: "last s \<notin> set cs" by simp_all
  from False h have a: "dropWhile (\<lambda>c. c \<in> set cs) s = s" by (cases s) simp_all
  from False l have b: "dropWhile (\<lambda>c. c \<in> set cs) (rev s) = rev s"
    by (cases "rev s") (simp_all add: hd_rev [symmetric])
  show ?thesis unfolding strip_set_def a b by simp
qed

lemma strip_set_idem: "strip_set cs (strip_set cs s) = strip_set cs s"
  using strip_set_ends [of cs s] by (intro strip_set_id) blast

lemma strip_idem: "strip (strip s) = strip s"
  by (simp add: strip_def strip_set_idem)

lemma strip_default_keywords: "strip ''UBER'' = ''UBER''" "strip ''99'' = ''99''"
  by code_simp+

lemma load_keywords_stripped:
  assumes "load_keywords f = Inr kws" and "k \<in> set kws"
  shows "strip k = k" and "k \<noteq> []"
proof -
  have "strip k = k \<and> k \<noteq> []"
  proof (cases f)
    case Missing
    with assms show ?thesis by (auto simp: load_keywords_def strip_default_keywords)
  next
    case Unreadable
    with assms show ?thesis by (simp add: load_keywords_def)
  next
    case (Document raw)
    with assms obtain x where "k = strip x" "strip x \<noteq> []"
      by (auto simp: load_keywords_def)
    then show ?thesis by (simp add: strip_idem)
  qed
  then show "strip k = k" and "k \<noteq> []" by simp_all
qed

lemma load_saved_keywords:
  assumes "\<forall>k \<in> set kws. strip k = k \<and> k \<noteq> []"
  shows "load_keywords (Document kws) = Inr kws"
proof -
  from assms have "filter (\<lambda>k. strip k \<noteq> []) kws = kws" by (simp add: filter_id_conv)
  moreover from assms have "map strip kws = kws" by (simp add: map_idI)
  ultimately show ?thesis by (simp add: load_keywords_def)
qed

text \<open>
  Claim C9. Adding a keyword. When the term is empty or white space only, the operation
  raises the validation error (Python's \<^verbatim>\<open>ValueError\<close>) and the store is as before:
  nothing is written. When the loaded list already holds a keyword equal to the trimmed
  term up to case, the operation returns normally and the store is as before. Otherwise
  exactly one save is made, of the loaded list followed by the trimmed term, so the
  keywords already present keep their order and the term comes last; loading the store
  afterwards returns that list.
\<close>

theorem add_keyword_cases:
  "(strip keyword = [] \<longrightarrow> add_keyword st keyword = (Inl ValueError, st))
   \<and> (strip keyword \<noteq> [] \<and> load_keywords (content st) = Inr kws
        \<and> upper (strip keyword) \<in> set (map upper kws)
      \<longrightarrow> add_keyword st keyword = (Inr (), st))
   \<and> (strip keyword \<noteq> [] \<and> load_keywords (content st) = Inr kws
        \<and> upper (strip keyword) \<notin> set (map upper kws)
      \<longrightarrow> add_keyword st keyword
            = (Inr (), \<lparr>content = Document (kws @ [strip keyword]), saves = saves st + 1\<rparr>)
          \<and> load_keywords (Document (kws @ [strip keyword])) = Inr (kws @ [strip keyword]))"
proof (intro conjI impI)
  assume "strip keyword = []"
  then show "add_keyword st keyword = (Inl ValueError, st)"
    by (simp add: add_keyword_def)
next
  assume "strip keyword \<noteq> [] \<and> load_keywords (content st) = Inr kws
        \<and> upper (strip keyword) \<in> set (map upper kws)"
  then show "add_keyword st keyword = (Inr (), st)"
    by (simp add: add_keyword_def)
next
  assume a: "strip keyword \<noteq> [] \<and> load_keywords (content st) = Inr kws
        \<and> upper (strip keyword) \<notin> set (map upper kws)"
  then show "add_keyword st keyword
            = (Inr (), \<lparr>content = Document (kws @ [strip keyword]), saves = saves st + 1\<rparr>)"
    by (simp add: add_keyword_def save_keywords_def)
  from a have "\<forall>k \<in> set (kws @ [strip keyword]). strip k = k \<and> k \<noteq> []"
    using load_keywords_stripped [of "content st" kws] by (auto simp: strip_idem)
  then show "load_keywords (Document (kws @ [strip keyword])) = Inr (kws @ [strip keyword])"
    by (rule load_saved_keywords)
qed

lemma witness_store_load:
  "load_keywords (content \<lparr>content = Document [''UBER'', ''99''], saves = 0\<rparr>)
   = Inr [''UBER'', ''99'']"
  by code_simp

lemma witness_store_strips:
  "strip ''   '' = []" "strip '' uber '' = ''uber''" "strip '' Cabify '' = ''Cabify''"
  "strip ''Cabify'' = ''Cabify''"
  by code_simp+

lemma witness_store_upper:
  "upper ''uber'' \<in> set (map upper [''UBER'', ''99''])"
  "upper ''Cabify'' \<notin> set (map upper [''UBER'', ''99''])"
  by code_simp+

theorem add_keyword_cases_witness:
  "strip ''   '' = []
   \<and> add_keyword \<lparr>content = Document [''UBER'', ''99''], saves = 0\<rparr> ''   ''
       = (Inl ValueError, \<lparr>content = Document [''UBER'', ''99''], saves = 0\<rparr>)
   \<and> strip '' uber '' \<noteq> []
   \<and> upper (strip '' uber '') \<in> set (map upper [''UBER'', ''99''])
   \<and> add_keyword \<lparr>content = Document [''UBER'', ''99''], saves = 0\<rparr> '' uber ''
       = (Inr (), \<lparr>content = Document [''UBER'', ''99''], saves = 0\<rparr>)
   \<and> strip '' Cabify '' \<noteq> []
   \<and> upper (strip '' Cabify '') \<notin> set (map upper [''UBER'', ''99''])
   \<and> add_keyword \<lparr>content = Document [''UBER'', ''99''], saves = 0\<rparr> '' Cabify ''
       = (Inr (), \<lparr>content = Document [''UBER'', ''99'', ''Cabify''], saves = 1\<rparr>)"
proof -
  let ?st = "\<lparr>content = Document [''UBER'', ''99''], saves = 0\<rparr>"
  have ha: "strip ''   '' = []" by code_simp
  have hb: "strip '' uber '' \<noteq> [] \<and> load_keywords (content ?st) = Inr [''UBER'', ''99'']
      \<and> upper (strip '' uber '') \<in> set (map upper [''UBER'', ''99''])"
    by code_simp
  have hc: "strip '' Cabify '' \<noteq> [] \<and> load_keywords (content ?st) = Inr [''UBER'', ''99'']
      \<and> upper (strip '' Cabify '') \<notin> set (map upper [''UBER'', ''99''])"
    by code_simp
  have sc: "strip '' Cabify '' = ''Cabify''" by code_simp
  note a = add_keyword_cases [of "''   ''" ?st "[''UBER'', ''99'']"]
  note b = add_keyword_cases [of "'' uber ''" ?st "[''UBER'', ''99'']"]
  note c = add_keyword_cases [of "'' Cabify ''" ?st "[''UBER'', ''99'']"]
  from a ha have ra: "add_keyword ?st ''   '' = (Inl ValueError, ?st)"
    by blast
  from b hb have rb: "add_keyword ?st '' uber '' = (Inr (), ?st)"
    by blast
  from c hc have "add_keyword ?st '' Cabify ''
       = (Inr (), \<lparr>content = Document ([''UBER'', ''99''] @ [strip '' Cabify '']),
                   saves = saves ?st + 1\<rparr>)"
    by blast
  then have rc: "add_keyword ?st '' Cabify ''
       = (Inr (), \<lparr>content = Document [''UBER'', ''99'', ''Cabify''], saves = 1\<rparr>)"
    by (simp add: sc)
  from ha ra hb rb hc rc show ?thesis by blast
qed

text \<open>
  Against the reading of claim C10 that a removal of an absent term writes nothing: with
  the stored list \<open>[UBER, 99]\<close>, removing \<open>Cabify\<close>, which is not in the list, calls
  \<^verbatim>\<open>save_keywords\<close> once, with the list as loaded.
\<close>

theorem remove_absent_keyword_saves_counterexample:
  "load_keywords (content \<lparr>content = Document [''UBER'', ''99''], saves = 0\<rparr>)
     = Inr [''UBER'', ''99'']
   \<and> upper (strip ''Cabify'') \<notin> set (map upper [''UBER'', ''99''])
   \<and> remove_keyword \<lparr>content = Document [''UBER'', ''99''], saves = 0\<rparr> ''Cabify''
       = (Inr (), \<lparr>content = Document [''UBER'', ''99''], saves = 1\<rparr>)"
  by code_simp

lemma filter_absent_keyword:
  "target \<notin> set (map upper kws) \<Longrightarrow> filter (\<lambda>k. upper k \<noteq> target) kws = kws"
  by (induction kws) auto

text \<open>
  Claim C10, amended. An add writes to storage exactly when it appends the term: an add
  of a blank term, an add on a store that cannot be loaded, and an add of a
  case-insensitive duplicate perform no save. A remove that passes the blank check and
  the load always performs one save, of the loaded list without the keywords equal to
  the term up to case; when the term is absent the list saved is the loaded list. A
  remove that fails the blank check or the load leaves the store as it was.
\<close>

theorem keyword_store_saves:
  "saves (snd (add_keyword st keyword))
     = (if strip keyword \<noteq> []
           \<and> (\<exists>kws. load_keywords (content st) = Inr kws
                     \<and> upper (strip keyword) \<notin> set (map upper kws))
        then saves st + 1 else saves st)
   \<and> (strip keyword \<noteq> [] \<and> load_keywords (content st) = Inr kws
      \<longrightarrow> remove_keyword st keyword
            = (Inr (), \<lparr>content = Document (filter (\<lambda>k. upper k \<noteq> upper (strip keyword)) kws),
                        saves = saves st + 1\<rparr>))
   \<and> (upper (strip keyword) \<notin> set (map upper kws)
      \<longrightarrow> filter (\<lambda>k. upper k \<noteq> upper (strip keyword)) kws = kws)
   \<and> (strip keyword = [] \<or> load_keywords (content st) = Inl e
      \<longrightarrow> snd (remove_keyword st keyword) = st)"
proof (intro conjI impI)
  show "saves (snd (add_keyword st keyword))
     = (if strip keyword \<noteq> []
           \<and> (\<exists>kws. load_keywords (content st) = Inr kws
                     \<and> upper (strip keyword) \<notin> set (map upper kws))
        then saves st + 1 else saves st)"
    by (cases "load_keywords (content st)")
      (simp_all add: add_keyword_def save_keywords_def Let_def)
next
  assume "strip keyword \<noteq> [] \<and> load_keywords (content st) = Inr kws"
  then show "remove_keyword st keyword
            = (Inr (), \<lparr>content = Document (filter (\<lambda>k. upper k \<noteq> upper (strip keyword)) kws),
                        saves = saves st + 1\<rparr>)"
    by (simp add: remove_keyword_def save_keywords_def)
next
  assume "upper (strip keyword) \<notin> set (map upper kws)"
  then show "filter (\<lambda>k. upper k \<noteq> upper (strip keyword)) kws = kws"
    by (rule filter_absent_keyword)
next
  assume "strip keyword = [] \<or> load_keywords (content st) = Inl e"
  then show "snd (remove_keyword st keyword) = st"
    by (auto simp: remove_keyword_def Let_def)
qed

theorem keyword_store_saves_witness:
  "strip ''Cabify'' \<noteq> []
   \<and> load_keywords (content \<lparr>content = Document [''UBER'', ''99''], saves = 0\<rparr>)
       = Inr [''UBER'', ''99'']
   \<and> upper (strip ''Cabify'') \<notin> set (map upper [''UBER'', ''99''])
   \<and> remove_keyword \<lparr>content = Document [''UBER'', ''99''], saves = 0\<rparr> ''Cabify''
       = (Inr (), \<lparr>content = Document [''UBER'', ''99''], saves = 1\<rparr>)
   \<and> saves (snd (add_keyword \<lparr>content = Document [''UBER'', ''99''], saves = 0\<rparr> '' uber ''))
       = 0
   \<and> strip ''   '' = []
   \<and> snd (remove_keyword \<lparr>content = Document [''UBER'', ''99''], saves = 0\<rparr> ''   '')
       = \<lparr>content = Document [''UBER'', ''99''], saves = 0\<rparr>"
proof -
  let ?st = "\<lparr>content = Document [''UBER'', ''99''], saves = 0\<rparr>"
  have ha: "strip ''Cabify'' \<noteq> [] \<and> load_keywords (content ?st) = Inr [''UBER'', ''99'']"
    by code_simp
  have ha': "upper (strip ''Cabify'') \<notin> set (map upper [''UBER'', ''99''])"
    by code_simp
  have hc: "strip ''   '' = []" by code_simp
  have sb: "saves (snd (add_keyword ?st '' uber '')) = 0" by code_simp
  note a = keyword_store_saves [of ?st "''Cabify''" "[''UBER'', ''99'']"]
  note c = keyword_store_saves [of ?st "''   ''" "[''UBER'', ''99'']"]
  from a ha have "remove_keyword ?st ''Cabify''
       = (Inr (), \<lparr>content = Document (filter (\<lambda>k. upper k \<noteq> upper (strip ''Cabify''))
                                        [''UBER'', ''99'']),
                   saves = saves ?st + 1\<rparr>)"
    by blast
  moreover from a ha' have "filter (\<lambda>k. upper k \<noteq> upper (strip ''Cabify'')) [''UBER'', ''99'']
      = [''UBER'', ''99'']"
    by blast
  ultimately have ra: "remove_keyword ?st ''Cabify''
       = (Inr (), \<lparr>content = Document [''UBER'', ''99''], saves = 1\<rparr>)"
    by simp
  from c hc have rc: "snd (remove_keyword ?st ''   '') = ?st"
    by blast
  from ha ha' ra sb hc rc show ?thesis by blast
qed

subsection \<open>Totals aggregator\<close>

lemma dict_get_update:
  "dict_get (AList.update k v d) k' dflt = (if k' = k then v else dict_get d k' dflt)"
  by (simp add: dict_get_def update_conv')

lemma sum_values_update:
  "sum_list (map snd (AList.update k v d)) = sum_list (map snd d) - dict_get d k 0 + (v::rat)"
  by (induction d) (auto simp: dict_get_def)

lemma dict_get_totals_loop:
  "dict_get (totals_loop lancs totals) k 0
     = dict_get totals k 0 + sum_list (map valor (filter (\<lambda>l. app l = k) lancs))"
  by (induction lancs arbitrary: totals) (simp_all add: dict_get_update)

lemma sum_values_totals_loop:
  "sum_list (map snd (totals_loop lancs totals))
     = sum_list (map snd totals) + sum_list (map valor lancs)"
  by (induction lancs arbitrary: totals) (simp_all add: sum_values_update)

lemma dict_get_Nil: "dict_get [] k dflt = dflt"
  by (simp add: dict_get_def)

lemma py_round2_zero: "py_round2 0 = 0"
  by (simp add: py_round2_def round_half_even_def)

lemma resumo_term_rows_eq:
  "resumo_term_rows lancs keywords
     = map (\<lambda>kw. (upper kw,
                   py_round2 (sum_list (map valor (filter (\<lambda>l. app l = upper kw) lancs)))))
           keywords"
  by (simp add: resumo_term_rows_def dict_get_totals_loop dict_get_Nil)

lemma resumo_total_geral_eq:
  "resumo_total_geral lancs = py_round2 (sum_list (map valor lancs))"
  by (simp add: resumo_total_geral_def sum_values_totals_loop)

lemma unconfigured_term_example:
  "resumo_rows
     [\<lparr>app = ''UBER'', data = '''', descricao = ''UBER 10,00'', valor = 10, pagina = 1\<rparr>,
      \<lparr>app = ''CABIFY'', data = '''', descricao = ''CABIFY 5,00'', valor = 5, pagina = 1\<rparr>]
     [''UBER'', ''99'']
   = [(''UBER'', 10), (''99'', 0), (''TOTAL GERAL'', 15)]"
  by code_simp

subsection \<open>Money parser\<close>

lemma replace_absent:
  "old \<noteq> [] \<Longrightarrow> hd old \<notin> set s \<Longrightarrow> replace s old new = s"
proof (induction s)
  case Nil
  then show ?case by simp
next
  case (Cons c cs)
  from Cons.prems have "\<not> prefix old (c # cs)"
    by (cases old) auto
  with Cons show ?case by simp
qed

lemma replace_char_delete: "replace s [x] [] = filter (\<lambda>c. c \<noteq> x) s"
  by (induction s) auto

lemma replace_char_char: "replace s [x] [y] = map (\<lambda>c. if c = x then y else c) s"
  by (induction s) auto

lemma digit_not_space: "c \<in> set digit_chars \<Longrightarrow> c \<notin> set space_chars"
  by (auto simp: digit_chars_def space_chars_def)

lemma digit_not_special:
  assumes "c \<in> set digit_chars"
  shows "c \<noteq> CHR ''.''" "c \<noteq> CHR '',''" "c \<noteq> CHR ''(''" "c \<noteq> CHR '')''"
    "c \<noteq> CHR ''-''" "c \<noteq> CHR ''+''" "c \<noteq> CHR ''R''" "c \<noteq> CHR ''B''"
  using assms by (auto simp: digit_chars_def)

lemma strip_id: "s = [] \<or> (hd s \<notin> set space_chars \<and> last s \<notin> set space_chars)
    \<Longrightarrow> strip s = s"
  unfolding strip_def by (rule strip_set_id)

lemma py_float_decimal:
  assumes ip: "is_digits ip" and fp: "list_all (\<lambda>c. c \<in> set digit_chars) fp"
  shows "py_float (ip @ CHR ''.'' # fp)
         = Inr (of_int (digits_val ip) + of_int (digits_val fp) / 10 ^ length fp)"
proof -
  let ?s = "ip @ CHR ''.'' # fp"
  let ?d = "\<lambda>c. c \<in> set digit_chars"
  from ip have ne: "ip \<noteq> []" and all: "\<forall>c \<in> set ip. ?d c"
    by (simp_all add: is_digits_def list_all_iff)
  from ne all have hd_ip: "?d (hd ip)" by (cases ip) simp_all
  have hd_s: "hd ?s = hd ip" using ne by simp
  have last_s: "last ?s \<notin> set space_chars"
  proof (cases "fp = []")
    case True
    then show ?thesis by (simp add: space_chars_def)
  next
    case False
    then have "last ?s = last fp" by simp
    moreover from False fp have "?d (last fp)" by (simp add: list_all_iff)
    ultimately show ?thesis by (simp add: digit_not_space)
  qed
  have strip: "strip ?s = ?s"
    by (rule strip_id) (use hd_s hd_ip last_s digit_not_space in auto)
  have nosign: "hd ?s \<noteq> CHR ''-''" "hd ?s \<noteq> CHR ''+''"
    using hd_s hd_ip digit_not_special by auto
  have nd: "\<not> ?d (CHR ''.'')" by (simp add: digit_chars_def)
  have tw: "takeWhile ?d ?s = ip"
    using all nd by (simp add: takeWhile_append2)
  have dw: "dropWhile ?d ?s = CHR ''.'' # fp"
    using all nd by (simp add: dropWhile_append2)
  have "py_float ?s = (let s = strip ?s;
          neg = (s \<noteq> [] \<and> hd s = CHR ''-'');
          body = (if s \<noteq> [] \<and> (hd s = CHR ''-'' \<or> hd s = CHR ''+'') then tl s else s);
          ip = takeWhile ?d body;
          rest = dropWhile ?d body;
          fp = (if rest = [] then [] else tl rest)
      in if (rest = [] \<or> hd rest = CHR ''.'') \<and> list_all ?d fp
            \<and> (ip \<noteq> [] \<or> fp \<noteq> [])
         then Inr ((if neg then - 1 else 1)
                   * (of_int (digits_val ip) + of_int (digits_val fp) / 10 ^ length fp))
         else Inl ValueError)"
    by (rule py_float_def)
  also have "\<dots> = Inr (of_int (digits_val ip) + of_int (digits_val fp) / 10 ^ length fp)"
    unfolding strip Let_def using nosign ne fp
    by (simp only: tw dw if_False if_True simp_thms list.sel list.distinct mult_1)
  finally show ?thesis .
qed

lemma numeral_core_facts:
  assumes b: "grouped_digits b" and c: "is_digits c"
  shows "hd (b @ CHR '','' # c) \<in> set digit_chars"
    and "last (b @ CHR '','' # c) \<in> set digit_chars"
    and "CHR ''R'' \<notin> set (b @ CHR '','' # c)"
    and "CHR ''B'' \<notin> set (b @ CHR '','' # c)"
    and "b @ CHR '','' # c \<noteq> []"
proof -
  from b have bne: "b \<noteq> []" and hb: "hd b \<in> set digit_chars"
    and ball: "\<forall>x \<in> set b. x \<in> set digit_chars \<or> x = CHR ''.''"
    by (simp_all add: grouped_digits_def list_all_iff)
  from c have cne: "c \<noteq> []" and call: "\<forall>x \<in> set c. x \<in> set digit_chars"
    by (simp_all add: is_digits_def list_all_iff)
  show "hd (b @ CHR '','' # c) \<in> set digit_chars" using bne hb by simp
  show "last (b @ CHR '','' # c) \<in> set digit_chars" using cne call by simp
  show "CHR ''R'' \<notin> set (b @ CHR '','' # c)"
    using ball call digit_not_special(7) by auto
  show "CHR ''B'' \<notin> set (b @ CHR '','' # c)"
    using ball call digit_not_special(8) by auto
  show "b @ CHR '','' # c \<noteq> []" by simp
qed

lemma numeral_core_separators:
  assumes b: "grouped_digits b" and c: "is_digits c"
  shows "replace (replace (b @ CHR '','' # c) ''.'' '''') '','' ''.''
         = filter (\<lambda>x. x \<noteq> CHR ''.'') b @ CHR ''.'' # c"
proof -
  from b have ball: "\<forall>x \<in> set b. x \<in> set digit_chars \<or> x = CHR ''.''"
    by (simp add: grouped_digits_def list_all_iff)
  from c have call: "\<forall>x \<in> set c. x \<in> set digit_chars"
    by (simp add: is_digits_def list_all_iff)
  have fc: "filter (\<lambda>x. x \<noteq> CHR ''.'') c = c"
    using call digit_not_special(1) by (simp add: filter_id_conv)
  have mc: "map (\<lambda>x. if x = CHR '','' then CHR ''.'' else x) c = c"
    using call digit_not_special(2) by (simp add: map_idI)
  have mb: "map (\<lambda>x. if x = CHR '','' then CHR ''.'' else x) (filter (\<lambda>x. x \<noteq> CHR ''.'') b)
      = filter (\<lambda>x. x \<noteq> CHR ''.'') b"
    by (rule map_idI) (use ball digit_not_special(2) in auto)
  show ?thesis
    by (simp add: replace_char_delete replace_char_char fc mc mb)
qed

lemma numeral_core_float:
  assumes b: "grouped_digits b" and c: "is_digits c"
  shows "py_float (replace (replace (b @ CHR '','' # c) ''.'' '''') '','' ''.'')
         = Inr (numeral_value b c)"
proof -
  from b have bne: "b \<noteq> []" and hb: "hd b \<in> set digit_chars"
    and ball: "\<forall>x \<in> set b. x \<in> set digit_chars \<or> x = CHR ''.''"
    by (simp_all add: grouped_digits_def list_all_iff)
  from bne hb digit_not_special(1) have "filter (\<lambda>x. x \<noteq> CHR ''.'') b \<noteq> []"
    by (cases b) auto
  moreover from ball have "\<forall>x \<in> set (filter (\<lambda>x. x \<noteq> CHR ''.'') b). x \<in> set digit_chars"
    by auto
  ultimately have ip: "is_digits (filter (\<lambda>x. x \<noteq> CHR ''.'') b)"
    by (simp add: is_digits_def list_all_iff)
  from c have fp: "list_all (\<lambda>x. x \<in> set digit_chars) c" by (simp add: is_digits_def)
  show ?thesis
    unfolding numeral_core_separators [OF b c] numeral_value_def
    by (rule py_float_decimal [OF ip fp])
qed

lemma br_money_to_float_core:
  assumes b: "grouped_digits b" and c: "is_digits c"
    and s1: "strip s0 = s1"
    and s3: "strip (replace (replace (strip_set ''()'' s1) ''R$'' '''') ''BRL'' '''')
             = b @ CHR '','' # c"
  shows "br_money_to_float s0
         = Inr (if startswith s1 ''('' \<and> endswith s1 '')''
                then - numeral_value b c else numeral_value b c)"
  unfolding br_money_to_float_def Let_def s1 s3 numeral_core_float [OF b c]
  by simp

lemma strip_set_wrapped:
  assumes "t \<noteq> []" and "hd t \<notin> set cs" and "last t \<notin> set cs"
    and "set pre \<subseteq> set cs" and "set post \<subseteq> set cs"
  shows "strip_set cs (pre @ t @ post) = t"
proof -
  let ?P = "\<lambda>x. x \<in> set cs"
  from assms(1,2) have dt: "dropWhile ?P (t @ post) = t @ post"
    by (cases t) simp_all
  from assms(4) have a: "dropWhile ?P (pre @ t @ post) = t @ post"
    by (simp add: dropWhile_append2 subset_iff dt)
  from assms(1,3) have drt: "dropWhile ?P (rev t) = rev t"
    by (cases "rev t") (simp_all add: hd_rev [symmetric])
  have "dropWhile ?P (rev post @ rev t) = dropWhile ?P (rev t)"
    by (rule dropWhile_append2) (use assms(5) in auto)
  then have b: "dropWhile ?P (rev (t @ post)) = rev t"
    by (simp add: drt)
  show ?thesis unfolding strip_set_def a b by simp
qed

lemma digit_not_paren: "c \<in> set digit_chars \<Longrightarrow> c \<notin> set ''()''"
  by (auto simp: digit_chars_def)

text \<open>
  Claim C6. The money parser on a Brazilian numeral: integer digits, possibly grouped by
  dots, a comma, and decimal digits. The dots are dropped, the comma is read as the
  decimal point and the result is the number so written; the same numeral between
  parentheses gives the negated number, and with a currency marker \<open>R$\<close> or \<open>BRL\<close>
  in front it gives the same number. In particular \<open>(12,34)\<close> gives -12.34,
  \<open>1.234,56\<close> gives 1234.56 and \<open>R$ 12,34\<close> gives 12.34.
\<close>

theorem money_parser:
  "(grouped_digits b \<and> is_digits c \<longrightarrow>
      br_money_to_float (b @ '','' @ c) = Inr (numeral_value b c)
      \<and> br_money_to_float (''('' @ b @ '','' @ c @ '')'') = Inr (- numeral_value b c)
      \<and> br_money_to_float (''R$ '' @ b @ '','' @ c) = Inr (numeral_value b c)
      \<and> br_money_to_float (''BRL '' @ b @ '','' @ c) = Inr (numeral_value b c))
   \<and> br_money_to_float ''(12,34)'' = Inr (- (1234 / 100))
   \<and> br_money_to_float ''1.234,56'' = Inr (123456 / 100)
   \<and> br_money_to_float ''R$ 12,34'' = Inr (1234 / 100)"
proof (intro conjI impI)
  assume "grouped_digits b \<and> is_digits c"
  then have b: "grouped_digits b" and c: "is_digits c" by simp_all
  let ?t = "b @ CHR '','' # c"
  note f = numeral_core_facts [OF b c]
  have sp: "hd ?t \<notin> set space_chars" "last ?t \<notin> set space_chars"
    using f(1,2) digit_not_space by blast+
  have pa: "hd ?t \<notin> set ''()''" "last ?t \<notin> set ''()''"
    using f(1,2) digit_not_paren by blast+
  have strip_t: "strip ?t = ?t" using sp by (intro strip_id) simp
  have unparen_t: "strip_set ''()'' ?t = ?t" using pa by (intro strip_set_id) simp
  have noR: "replace ?t ''R$'' '''' = ?t" using f(3) by (intro replace_absent) simp_all
  have noB: "replace ?t ''BRL'' '''' = ?t" using f(4) by (intro replace_absent) simp_all
  have not_open: "\<not> startswith ?t ''(''"
    using pa(1) by (cases ?t) (auto simp: startswith_def)
  show "br_money_to_float (b @ '','' @ c) = Inr (numeral_value b c)"
    using br_money_to_float_core [OF b c strip_t] not_open
    by (simp add: unparen_t noR noB strip_t)
  show "br_money_to_float (''('' @ b @ '','' @ c @ '')'') = Inr (- numeral_value b c)"
  proof -
    let ?s = "''('' @ ?t @ '')''"
    have s1: "strip ?s = ?s" by (intro strip_id) (simp add: space_chars_def)
    have s2: "strip_set ''()'' ?s = ?t"
      using pa f(5) by (intro strip_set_wrapped) simp_all
    have s3: "strip (replace (replace (strip_set ''()'' ?s) ''R$'' [])  ''BRL'' []) = ?t"
      by (simp only: s2 noR noB strip_t)
    have "startswith ?s ''('' \<and> endswith ?s '')''"
      by (simp add: startswith_def endswith_def suffix_def)
    with br_money_to_float_core [OF b c s1 s3] show ?thesis
      by simp
  qed
  show "br_money_to_float (''R$ '' @ b @ '','' @ c) = Inr (numeral_value b c)"
  proof -
    let ?s = "''R$ '' @ ?t"
    have s1: "strip ?s = ?s" using sp(2) by (intro strip_id) (simp add: space_chars_def)
    have s2: "strip_set ''()'' ?s = ?s" using pa(2) by (intro strip_set_id) simp
    have "replace ?s ''R$'' '''' = '' '' @ ?t"
      using f(3) by (simp add: replace_absent)
    moreover have "replace ('' '' @ ?t) ''BRL'' '''' = '' '' @ ?t"
      using f(4) by (intro replace_absent) simp_all
    moreover have "strip ('' '' @ ?t) = ?t"
      unfolding strip_def using strip_set_wrapped [of ?t space_chars "'' ''" "[]"] sp f(5)
      by (simp add: space_chars_def)
    ultimately have s3: "strip (replace (replace (strip_set ''()'' ?s) ''R$'' '''') ''BRL'' '''')
        = ?t"
      by (simp only: s2)
    have "\<not> startswith ?s ''(''" by (simp add: startswith_def)
    with br_money_to_float_core [OF b c s1 s3] show ?thesis by simp
  qed
  show "br_money_to_float (''BRL '' @ b @ '','' @ c) = Inr (numeral_value b c)"
  proof -
    let ?s = "''BRL '' @ ?t"
    have s1: "strip ?s = ?s" using sp(2) by (intro strip_id) (simp add: space_chars_def)
    have s2: "strip_set ''()'' ?s = ?s" using pa(2) by (intro strip_set_id) simp
    have "replace ('' '' @ ?t) ''R$'' '''' = '' '' @ ?t"
      using f(3) by (intro replace_absent) simp_all
    then have "replace ?s ''R$'' '''' = ?s"
      by simp
    moreover have "replace ?s ''BRL'' '''' = '' '' @ ?t"
      using f(4) by (simp add: replace_absent)
    moreover have "strip ('' '' @ ?t) = ?t"
      unfolding strip_def using strip_set_wrapped [of ?t space_chars "'' ''" "[]"] sp f(5)
      by (simp add: space_chars_def)
    ultimately have s3: "strip (replace (replace (strip_set ''()'' ?s) ''R$'' '''') ''BRL'' '''')
        = ?t"
      by (simp only: s2)
    have "\<not> startswith ?s ''(''" by (simp add: startswith_def)
    with br_money_to_float_core [OF b c s1 s3] show ?thesis by simp
  qed
next
  show "br_money_to_float ''(12,34)'' = Inr (- (1234 / 100))" by code_simp
  show "br_money_to_float ''1.234,56'' = Inr (123456 / 100)" by code_simp
  show "br_money_to_float ''R$ 12,34'' = Inr (1234 / 100)" by code_simp
qed

theorem money_parser_witness:
  "grouped_digits ''1.234'' \<and> is_digits ''56''
   \<and> numeral_value ''1.234'' ''56'' = 123456 / 100
   \<and> br_money_to_float (''1.234'' @ '','' @ ''56'') = Inr (numeral_value ''1.234'' ''56'')
   \<and> br_money_to_float (''('' @ ''1.234'' @ '','' @ ''56'' @ '')'')
       = Inr (- numeral_value ''1.234'' ''56'')
   \<and> br_money_to_float (''R$ '' @ ''1.234'' @ '','' @ ''56'')
       = Inr (numeral_value ''1.234'' ''56'')"
proof -
  have h: "grouped_digits ''1.234'' \<and> is_digits ''56''" by code_simp
  have v: "numeral_value ''1.234'' ''56'' = 123456 / 100" by code_simp
  from money_parser [of "''1.234''" "''56''"] h v show ?thesis by blast
qed

subsection \<open>Every match is a word of its pattern, at its place in the subject\<close>

lemma rmatch_lang:
  "t \<in> set (rmatch r s) \<Longrightarrow>
     \<exists>w. ahead s = w @ ahead t \<and> passed t = rev w @ passed s \<and> lang r w"
proof (induction r s arbitrary: t rule: rmatch.induct)
  case (1 s)
  then show ?case by simp
next
  case (2 cl s)
  show ?case
  proof (cases "ahead s")
    case Nil
    with "2.prems" show ?thesis by simp
  next
    case (Cons c cs)
    with "2.prems" have t: "t = (c # passed s, cs, captured s)" and c: "c \<in> set cl"
      by (simp_all split: if_splits)
    have "ahead s = [c] @ ahead t \<and> passed t = rev [c] @ passed s \<and> lang (Cls cl) [c]"
      using c by (simp add: t Cons)
    then show ?thesis by blast
  qed
next
  case (3 s)
  then have "t = s" by (simp split: if_splits)
  then show ?case by simp
next
  case (4 a b s)
  from "4.prems" obtain u where u: "u \<in> set (rmatch a s)" "t \<in> set (rmatch b u)"
    by auto
  from "4.IH"(1) [OF u(1)] obtain w1 where w1: "ahead s = w1 @ ahead u"
    "passed u = rev w1 @ passed s" "lang a w1" by blast
  from "4.IH"(2) [OF u] obtain w2 where w2: "ahead u = w2 @ ahead t"
    "passed t = rev w2 @ passed u" "lang b w2" by blast
  have "lang (Seq a b) (w1 @ w2)"
    using w1(3) w2(3) by (simp only: lang.simps) blast
  moreover have "ahead s = (w1 @ w2) @ ahead t \<and> passed t = rev (w1 @ w2) @ passed s"
    by (simp add: w1 w2)
  ultimately show ?case by blast
next
  case (5 a b s)
  from "5.prems" have "t \<in> set (rmatch a s) \<or> t \<in> set (rmatch b s)" by simp
  then show ?case using "5.IH" by (simp only: lang.simps) blast
next
  case (6 a s)
  from "6.prems" have "t \<in> set (rmatch a s) \<or> t = s" by auto
  then show ?case
  proof
    assume "t \<in> set (rmatch a s)"
    from "6.IH" [OF this] show ?thesis by (simp only: lang.simps) blast
  next
    assume "t = s"
    then show ?thesis by simp
  qed
next
  case (7 a s)
  from "7.prems" have "t = s \<or> (\<exists>u \<in> set (rmatch a s).
      length (ahead u) < length (ahead s) \<and> t \<in> set (rmatch (Star a) u))"
    by (subst (asm) rmatch.simps(7)) (auto split: if_splits)
  then show ?case
  proof
    assume "t = s"
    then have "ahead s = [] @ ahead t \<and> passed t = rev [] @ passed s
        \<and> [] = concat [] \<and> list_all (lang a) []"
      by simp
    then show ?thesis by (simp only: lang.simps) blast
  next
    assume "\<exists>u \<in> set (rmatch a s).
      length (ahead u) < length (ahead s) \<and> t \<in> set (rmatch (Star a) u)"
    then obtain u where u: "u \<in> set (rmatch a s)" "length (ahead u) < length (ahead s)"
      "t \<in> set (rmatch (Star a) u)" by blast
    from "7.IH"(1) [OF u(1)] obtain w1 where w1: "ahead s = w1 @ ahead u"
      "passed u = rev w1 @ passed s" "lang a w1" by blast
    from "7.IH"(2) [OF u] obtain w2 where w2: "ahead u = w2 @ ahead t"
      "passed t = rev w2 @ passed u" "lang (Star a) w2" by blast
    from w2(3) obtain ws where ws: "w2 = concat ws" "list_all (lang a) ws" by auto
    have "w1 @ w2 = concat (w1 # ws) \<and> list_all (lang a) (w1 # ws)"
      using w1(3) ws by simp
    then have "lang (Star a) (w1 @ w2)" by (simp only: lang.simps) blast
    moreover have "ahead s = (w1 @ w2) @ ahead t \<and> passed t = rev (w1 @ w2) @ passed s"
      by (simp add: w1 w2)
    ultimately show ?thesis by blast
  qed
next
  case (8 n a s)
  from "8.prems" obtain u where u: "u \<in> set (rmatch a s)"
    and t: "t = (passed u, ahead u, AList.update n (consumed s u) (captured u))"
    by auto
  from "8.IH" [OF u] show ?case by (simp add: t)
qed

lemma first_match_mem:
  "first_match adv r pre rest = Some t \<Longrightarrow> t \<in> set (rmatch r (pre, rest, []))"
proof -
  assume a: "first_match adv r pre rest = Some t"
  let ?ok = "\<lambda>t. \<not> adv \<or> length (ahead t) < length rest"
  from a obtain ts where "filter ?ok (rmatch r (pre, rest, [])) = t # ts"
    by (auto simp: first_match_def split: list.splits)
  then have "t \<in> set (filter ?ok (rmatch r (pre, rest, [])))" by simp
  then show ?thesis by simp
qed

lemma mk_match_text:
  assumes "first_match adv r pre rest = Some t"
  shows "rest = matched (mk_match pre rest t) @ after (mk_match pre rest t)"
    and "before_rev (mk_match pre rest t) = pre"
proof -
  from rmatch_lang [OF first_match_mem [OF assms]]
  obtain w where w: "rest = w @ ahead t" "passed t = rev w @ pre" by auto
  have "consumed (pre, rest, []) t = w"
    by (simp add: consumed_def w(2))
  with w(1) show "rest = matched (mk_match pre rest t) @ after (mk_match pre rest t)"
    by (simp add: mk_match_def)
  show "before_rev (mk_match pre rest t) = pre" by (simp add: mk_match_def)
qed

lemma scan_text:
  "scan adv r pre rest = Some m \<Longrightarrow>
     rev pre @ rest = rev (before_rev m) @ matched m @ after m"
proof (induction rest arbitrary: adv pre)
  case Nil
  then obtain t where t: "first_match adv r pre [] = Some t" and m: "m = mk_match pre [] t"
    by auto
  from mk_match_text [OF t] show ?case by (simp add: m)
next
  case (Cons c cs)
  show ?case
  proof (cases "first_match adv r pre (c # cs)")
    case None
    with Cons.prems have "scan False r (c # pre) cs = Some m" by simp
    from Cons.IH [OF this] show ?thesis by simp
  next
    case (Some t)
    with Cons.prems have m: "m = mk_match pre (c # cs) t" by simp
    from mk_match_text [OF Some] show ?thesis unfolding m by simp
  qed
qed

lemma finditer_from_text:
  "m \<in> set (finditer_from adv r pre rest) \<Longrightarrow>
     rev pre @ rest = rev (before_rev m) @ matched m @ after m"
proof (induction adv r pre rest rule: finditer_from.induct)
  case (1 adv r pre rest)
  show ?case
  proof (cases "scan adv r pre rest")
    case None
    with "1.prems" show ?thesis by (simp add: finditer_from.simps)
  next
    case (Some m0)
    note eq = scan_text [OF Some]
    from "1.prems" Some have "m = m0 \<or>
        m \<in> set (finditer_from (matched m0 = []) r (rev (matched m0) @ before_rev m0) (after m0))"
      by (subst (asm) finditer_from.simps) simp
    then show ?thesis
    proof
      assume "m = m0"
      with eq show ?thesis by simp
    next
      assume "m \<in> set (finditer_from (matched m0 = []) r
                        (rev (matched m0) @ before_rev m0) (after m0))"
      from "1.IH" [OF Some this] eq show ?thesis by simp
    qed
  qed
qed

lemma finditer_text:
  "m \<in> set (finditer r line) \<Longrightarrow> line = rev (before_rev m) @ matched m @ after m"
  using finditer_from_text [of m False r "[]" line] by (simp add: finditer_def)

lemma mk_match_lang:
  assumes "first_match adv r pre rest = Some t"
  shows "lang r (matched (mk_match pre rest t))"
proof -
  from rmatch_lang [OF first_match_mem [OF assms]]
  obtain w where w: "rest = w @ ahead t" "passed t = rev w @ pre" "lang r w" by auto
  have "consumed (pre, rest, []) t = w"
    by (simp add: consumed_def w(2))
  with w(3) show ?thesis by (simp add: mk_match_def)
qed

lemma scan_lang: "scan adv r pre rest = Some m \<Longrightarrow> lang r (matched m)"
proof (induction rest arbitrary: adv pre)
  case Nil
  then obtain t where t: "first_match adv r pre [] = Some t" and m: "m = mk_match pre [] t"
    by auto
  from mk_match_lang [OF t] show ?case by (simp add: m)
next
  case (Cons c cs)
  show ?case
  proof (cases "first_match adv r pre (c # cs)")
    case None
    with Cons.prems have "scan False r (c # pre) cs = Some m" by simp
    then show ?thesis by (rule Cons.IH)
  next
    case (Some t)
    with Cons.prems have m: "m = mk_match pre (c # cs) t" by simp
    from mk_match_lang [OF Some] show ?thesis unfolding m .
  qed
qed

lemma finditer_from_lang:
  "m \<in> set (finditer_from adv r pre rest) \<Longrightarrow> lang r (matched m)"
proof (induction adv r pre rest rule: finditer_from.induct)
  case (1 adv r pre rest)
  show ?case
  proof (cases "scan adv r pre rest")
    case None
    with "1.prems" show ?thesis by (simp add: finditer_from.simps)
  next
    case (Some m0)
    from "1.prems" Some have "m = m0 \<or>
        m \<in> set (finditer_from (matched m0 = []) r (rev (matched m0) @ before_rev m0) (after m0))"
      by (subst (asm) finditer_from.simps) simp
    then show ?thesis
    proof
      assume "m = m0"
      with scan_lang [OF Some] show ?thesis by simp
    next
      assume "m \<in> set (finditer_from (matched m0 = []) r
                        (rev (matched m0) @ before_rev m0) (after m0))"
      with "1.IH" [OF Some] show ?thesis .
    qed
  qed
qed

lemma finditer_lang: "m \<in> set (finditer r line) \<Longrightarrow> lang r (matched m)"
  unfolding finditer_def by (rule finditer_from_lang)

subsection \<open>Amount extractor\<close>

lemma lang_SeqE:
  assumes "lang (Seq a b) w"
  obtains u v where "w = u @ v" "lang a u" "lang b v"
  using assms by auto

lemma lang_digit: "lang digit w = (\<exists>d \<in> set digit_chars. w = [d])"
  by (simp add: digit_def)

lemma lang_exactly_digit:
  "lang (exactly n digit) w \<Longrightarrow> length w = n \<and> list_all (\<lambda>c. c \<in> set digit_chars) w"
proof (induction n arbitrary: w)
  case 0
  then show ?case by simp
next
  case (Suc n)
  from Suc.prems obtain u v where w: "w = u @ v" and u: "lang digit u"
    and v: "lang (exactly n digit) v" by auto
  from u obtain d where "d \<in> set digit_chars" "u = [d]" by (auto simp: lang_digit)
  with Suc.IH [OF v] show ?case by (simp add: w)
qed

lemma lang_at_most_digit:
  "lang (at_most n digit) w \<Longrightarrow> list_all (\<lambda>c. c \<in> set digit_chars) w"
proof (induction n arbitrary: w)
  case 0
  then show ?case by simp
next
  case (Suc n)
  from Suc.prems have "w = [] \<or> (\<exists>u v. w = u @ v \<and> lang digit u \<and> lang (at_most n digit) v)"
    by simp
  then show ?case
  proof
    assume "w = []"
    then show ?thesis by simp
  next
    assume "\<exists>u v. w = u @ v \<and> lang digit u \<and> lang (at_most n digit) v"
    then obtain u v where w: "w = u @ v" and u: "lang digit u"
      and v: "lang (at_most n digit) v" by blast
    from u obtain d where "d \<in> set digit_chars" "u = [d]" by (auto simp: lang_digit)
    with Suc.IH [OF v] show ?thesis by (simp add: w)
  qed
qed

lemma lang_between_digit:
  assumes "lang (between lo hi digit) w"
  shows "lo \<le> length w" and "list_all (\<lambda>c. c \<in> set digit_chars) w"
proof -
  from assms obtain u v where w: "w = u @ v" and u: "lang (exactly lo digit) u"
    and v: "lang (at_most (hi - lo) digit) v" by (auto simp: between_def)
  from lang_exactly_digit [OF u] lang_at_most_digit [OF v]
  show "lo \<le> length w" and "list_all (\<lambda>c. c \<in> set digit_chars) w"
    by (simp_all add: w)
qed

lemma concat_all:
  "list_all (\<lambda>x. list_all P x) ws \<Longrightarrow> list_all P (concat ws)"
  by (induction ws) simp_all

lemma lang_star_digit:
  assumes "lang (Star digit) w"
  shows "list_all (\<lambda>c. c \<in> set digit_chars) w"
proof -
  from assms obtain ws where w: "w = concat ws" and ws: "list_all (lang digit) ws" by auto
  from ws have "list_all (\<lambda>x. list_all (\<lambda>c. c \<in> set digit_chars) x) ws"
    by (auto simp: list_all_iff lang_digit)
  then show ?thesis unfolding w by (rule concat_all)
qed

lemma lang_one_or_more_digit:
  assumes "lang (one_or_more digit) w"
  shows "w \<noteq> []" and "list_all (\<lambda>c. c \<in> set digit_chars) w"
proof -
  from assms obtain u v where w: "w = u @ v" and u: "lang digit u"
    and v: "lang (Star digit) v" by (auto simp: one_or_more_def)
  from u obtain d where d: "d \<in> set digit_chars" "u = [d]" by (auto simp: lang_digit)
  from d lang_star_digit [OF v]
  show "w \<noteq> []" and "list_all (\<lambda>c. c \<in> set digit_chars) w"
    by (simp_all add: w)
qed

lemma lang_dot_groups:
  assumes "lang (Star (seqs [Cls ''.'', exactly 3 digit])) w"
  shows "list_all (\<lambda>c. c \<in> set digit_chars \<or> c = CHR ''.'') w"
proof -
  from assms obtain ws where w: "w = concat ws"
    and ws: "list_all (lang (Seq (Cls ''.'') (exactly 3 digit))) ws" by auto
  have "list_all (\<lambda>c. c \<in> set digit_chars \<or> c = CHR ''.'') x"
    if "lang (Seq (Cls ''.'') (exactly 3 digit)) x" for x
  proof -
    from that obtain v where x: "x = CHR ''.'' # v" and v: "lang (exactly 3 digit) v"
      by auto
    from lang_exactly_digit [OF v] show ?thesis by (simp add: x list_all_iff)
  qed
  with ws have "list_all (\<lambda>x. list_all (\<lambda>c. c \<in> set digit_chars \<or> c = CHR ''.'') x) ws"
    by (auto simp: list_all_iff)
  then show ?thesis unfolding w by (rule concat_all)
qed

lemma lang_amount_number:
  assumes "lang (Alt (seqs [between 1 3 digit, Star (seqs [Cls ''.'', exactly 3 digit]),
                            Cls '','', exactly 2 digit])
                     (seqs [one_or_more digit, Cls '','', exactly 2 digit])) w"
  shows "\<exists>b c. w = b @ CHR '','' # c \<and> grouped_digits b \<and> is_digits c \<and> length c = 2"
proof -
  from assms consider
    (grouped) w1 w2 w4 where "w = w1 @ w2 @ CHR '','' # w4" "lang (between 1 3 digit) w1"
      "lang (Star (seqs [Cls ''.'', exactly 3 digit])) w2" "lang (exactly 2 digit) w4"
  | (plain) w1 w4 where "w = w1 @ CHR '','' # w4" "lang (one_or_more digit) w1"
      "lang (exactly 2 digit) w4"
    by auto
  then show ?thesis
  proof cases
    case grouped
    from lang_between_digit [OF grouped(2)] have w1: "w1 \<noteq> []"
      "list_all (\<lambda>c. c \<in> set digit_chars) w1" by auto
    then have "hd (w1 @ w2) \<in> set digit_chars" by (cases w1) simp_all
    moreover from w1(2) lang_dot_groups [OF grouped(3)]
    have "list_all (\<lambda>c. c \<in> set digit_chars \<or> c = CHR ''.'') (w1 @ w2)"
      by (auto simp: list_all_iff)
    ultimately have "grouped_digits (w1 @ w2)" using w1(1) by (simp add: grouped_digits_def)
    moreover from lang_exactly_digit [OF grouped(4)] have "is_digits w4" "length w4 = 2"
      by (auto simp: is_digits_def)
    moreover have "w = (w1 @ w2) @ CHR '','' # w4" by (simp add: grouped(1))
    ultimately show ?thesis by blast
  next
    case plain
    from lang_one_or_more_digit [OF plain(2)] have w1: "w1 \<noteq> []"
      "list_all (\<lambda>c. c \<in> set digit_chars) w1" by auto
    then have "hd w1 \<in> set digit_chars" by (cases w1) simp_all
    with w1 have "grouped_digits w1" by (simp add: grouped_digits_def list_all_iff)
    moreover from lang_exactly_digit [OF plain(3)] have "is_digits w4" "length w4 = 2"
      by (auto simp: is_digits_def)
    ultimately show ?thesis using plain(1) by blast
  qed
qed

lemma lang_AMOUNT_RE:
  assumes "lang AMOUNT_RE w"
  shows "\<exists>p1 p2 b c p4. w = p1 @ p2 @ (b @ CHR '','' # c) @ p4
           \<and> (p1 = [] \<or> p1 = ''('') \<and> (p2 = [] \<or> p2 = ''-'') \<and> (p4 = [] \<or> p4 = '')'')
           \<and> grouped_digits b \<and> is_digits c \<and> length c = 2"
proof -
  let ?num = "Alt (seqs [between 1 3 digit, Star (seqs [Cls ''.'', exactly 3 digit]),
                         Cls '','', exactly 2 digit])
                  (seqs [one_or_more digit, Cls '','', exactly 2 digit])"
  from assms have "lang (Seq (Opt (Grp 1 (Cls ''('')))
                     (Seq (Opt (Grp 2 (Cls ''-'')))
                          (Seq (Grp 3 ?num) (Opt (Grp 4 (Cls '')'')))))) w"
    by (simp only: AMOUNT_RE_def seqs.simps)
  then obtain p1 r1 where w1: "w = p1 @ r1" and "lang (Opt (Grp 1 (Cls ''(''))) p1"
    and r1: "lang (Seq (Opt (Grp 2 (Cls ''-'')))
                       (Seq (Grp 3 ?num) (Opt (Grp 4 (Cls '')''))))) r1"
    by (rule lang_SeqE)
  then have p1: "p1 = [] \<or> p1 = ''(''" by simp
  from r1 obtain p2 r2 where w2: "r1 = p2 @ r2" and "lang (Opt (Grp 2 (Cls ''-''))) p2"
    and r2: "lang (Seq (Grp 3 ?num) (Opt (Grp 4 (Cls '')'')))) r2"
    by (rule lang_SeqE)
  then have p2: "p2 = [] \<or> p2 = ''-''" by simp
  from r2 obtain n p4 where w3: "r2 = n @ p4" and "lang (Grp 3 ?num) n"
    and "lang (Opt (Grp 4 (Cls '')''))) p4"
    by (rule lang_SeqE)
  then have n: "lang ?num n" and p4: "p4 = [] \<or> p4 = '')''" by simp_all
  have w: "w = p1 @ p2 @ n @ p4" by (simp add: w1 w2 w3)
  from lang_amount_number [OF n] obtain b c where "n = b @ CHR '','' # c"
    "grouped_digits b" "is_digits c" "length c = 2" by blast
  with w p1 p2 p4 show ?thesis by blast
qed

lemma strip_set_disjoint: "set s \<inter> set cs = {} \<Longrightarrow> strip_set cs s = s"
proof (cases "s = []")
  case True
  then show ?thesis by (simp add: strip_set_def)
next
  case False
  assume d: "set s \<inter> set cs = {}"
  from False have "hd s \<in> set s" "last s \<in> set s" by simp_all
  with d have "hd s \<notin> set cs \<and> last s \<notin> set cs" by blast
  then show ?thesis by (intro strip_set_id) simp
qed

lemma py_float_negative:
  assumes ip: "is_digits ip" and fp: "list_all (\<lambda>c. c \<in> set digit_chars) fp"
  shows "py_float (CHR ''-'' # ip @ CHR ''.'' # fp)
         = Inr (- (of_int (digits_val ip) + of_int (digits_val fp) / 10 ^ length fp))"
proof -
  let ?b = "ip @ CHR ''.'' # fp"
  let ?s = "CHR ''-'' # ?b"
  let ?d = "\<lambda>c. c \<in> set digit_chars"
  from ip have ne: "ip \<noteq> []" and all: "\<forall>c \<in> set ip. ?d c"
    by (simp_all add: is_digits_def list_all_iff)
  have last_s: "last ?s \<notin> set space_chars"
  proof (cases "fp = []")
    case True
    then show ?thesis by (simp add: space_chars_def)
  next
    case False
    then have "last ?s = last fp" by simp
    moreover from False fp have "?d (last fp)" by (simp add: list_all_iff)
    ultimately show ?thesis by (simp add: digit_not_space)
  qed
  have "hd ?s \<notin> set space_chars" by (simp add: space_chars_def)
  with last_s have strip: "strip ?s = ?s" by (intro strip_id) blast
  have nd: "\<not> ?d (CHR ''.'')" by (simp add: digit_chars_def)
  have tw: "takeWhile ?d ?b = ip"
    using all nd by (simp add: takeWhile_append2)
  have dw: "dropWhile ?d ?b = CHR ''.'' # fp"
    using all nd by (simp add: dropWhile_append2)
  have "py_float ?s = (let s = strip ?s;
          neg = (s \<noteq> [] \<and> hd s = CHR ''-'');
          body = (if s \<noteq> [] \<and> (hd s = CHR ''-'' \<or> hd s = CHR ''+'') then tl s else s);
          ip = takeWhile ?d body;
          rest = dropWhile ?d body;
          fp = (if rest = [] then [] else tl rest)
      in if (rest = [] \<or> hd rest = CHR ''.'') \<and> list_all ?d fp
            \<and> (ip \<noteq> [] \<or> fp \<noteq> [])
         then Inr ((if neg then - 1 else 1)
                   * (of_int (digits_val ip) + of_int (digits_val fp) / 10 ^ length fp))
         else Inl ValueError)"
    by (rule py_float_def)
  also have "\<dots> = Inr (- 1 * (of_int (digits_val ip) + of_int (digits_val fp) / 10 ^ length fp))"
    unfolding strip Let_def using ne fp
    by (simp only: list.sel list.distinct tw dw if_False if_True simp_thms)
  finally show ?thesis by simp
qed

lemma signed_core_float:
  assumes b: "grouped_digits b" and c: "is_digits c" and p2: "p2 = [] \<or> p2 = ''-''"
  shows "py_float (replace (replace (p2 @ b @ CHR '','' # c) ''.'' []) '','' ''.'')
         = Inr ((if p2 = ''-'' then - 1 else 1) * numeral_value b c)"
proof (cases "p2 = []")
  case True
  with numeral_core_float [OF b c] show ?thesis by simp
next
  case False
  with p2 have p2: "p2 = ''-''" by simp
  from b have bne: "b \<noteq> []" and hb: "hd b \<in> set digit_chars"
    and ball: "\<forall>x \<in> set b. x \<in> set digit_chars \<or> x = CHR ''.''"
    by (simp_all add: grouped_digits_def list_all_iff)
  from bne hb digit_not_special(1) have "filter (\<lambda>x. x \<noteq> CHR ''.'') b \<noteq> []"
    by (cases b) auto
  moreover from ball have "\<forall>x \<in> set (filter (\<lambda>x. x \<noteq> CHR ''.'') b). x \<in> set digit_chars"
    by auto
  ultimately have ip: "is_digits (filter (\<lambda>x. x \<noteq> CHR ''.'') b)"
    by (simp add: is_digits_def list_all_iff)
  from c have fp: "list_all (\<lambda>x. x \<in> set digit_chars) c" by (simp add: is_digits_def)
  have "replace (replace (CHR ''-'' # b @ CHR '','' # c) ''.'' []) '','' ''.''
        = CHR ''-'' # replace (replace (b @ CHR '','' # c) ''.'' []) '','' ''.''"
    by (simp add: replace_char_delete replace_char_char)
  also have "\<dots> = CHR ''-'' # filter (\<lambda>x. x \<noteq> CHR ''.'') b @ CHR ''.'' # c"
    by (simp only: numeral_core_separators [OF b c])
  finally show ?thesis
    using py_float_negative [OF ip fp] by (simp add: p2 numeral_value_def)
qed

lemma br_money_to_float_token:
  assumes b: "grouped_digits b" and c: "is_digits c"
    and p1: "p1 = [] \<or> p1 = ''(''" and p2: "p2 = [] \<or> p2 = ''-''"
    and p4: "p4 = [] \<or> p4 = '')''"
  shows "br_money_to_float (p1 @ p2 @ (b @ CHR '','' # c) @ p4)
         = Inr ((if p1 = ''('' \<and> p4 = '')'' then - 1 else 1)
                * ((if p2 = ''-'' then - 1 else 1) * numeral_value b c))"
proof -
  let ?t = "b @ CHR '','' # c"
  let ?core = "p2 @ ?t"
  let ?s = "p1 @ ?core @ p4"
  note f = numeral_core_facts [OF b c]
  from b have ball: "\<forall>x \<in> set b. x \<in> set digit_chars \<or> x = CHR ''.''"
    by (simp add: grouped_digits_def list_all_iff)
  from c have call: "\<forall>x \<in> set c. x \<in> set digit_chars"
    by (simp add: is_digits_def list_all_iff)
  have chars: "set ?s \<subseteq> set digit_chars \<union> set ''.,()-''"
    using ball call p1 p2 p4 by auto
  have "(set digit_chars \<union> set ''.,()-'') \<inter> set space_chars = {}"
    by (simp add: digit_chars_def space_chars_def)
  with chars have "set ?s \<inter> set space_chars = {}" by blast
  then have s1: "strip ?s = ?s" unfolding strip_def by (rule strip_set_disjoint)
  have core_ne: "?core \<noteq> []" by simp
  have hd_core: "hd ?core \<notin> set ''()''"
    using p2 f(1) digit_not_paren by (cases "p2 = []") auto
  have last_core: "last ?core \<notin> set ''()''"
    using f(2) digit_not_paren by simp
  have s2: "strip_set ''()'' ?s = ?core"
    using core_ne hd_core last_core p1 p4 by (intro strip_set_wrapped) auto
  have "CHR ''R'' \<notin> set ?core" using f(3) p2 by auto
  then have noR: "replace ?core ''R$'' [] = ?core" by (intro replace_absent) simp_all
  have "CHR ''B'' \<notin> set ?core" using f(4) p2 by auto
  then have noB: "replace ?core ''BRL'' [] = ?core" by (intro replace_absent) simp_all
  have "set ?core \<subseteq> set ?s" by auto
  with \<open>set ?s \<inter> set space_chars = {}\<close> have "set ?core \<inter> set space_chars = {}" by blast
  then have s3: "strip ?core = ?core" unfolding strip_def by (rule strip_set_disjoint)
  have start: "startswith ?s ''('' = (p1 = ''('')"
  proof (cases "p1 = []")
    case True
    with hd_core core_ne show ?thesis
      by (cases ?core) (auto simp: startswith_def)
  next
    case False
    with p1 show ?thesis by (simp add: startswith_def)
  qed
  have "endswith ?s '')'' = (p4 = '')'')"
  proof (cases "p4 = []")
    case True
    have "\<not> suffix '')'' (p1 @ ?core)"
    proof
      assume "suffix '')'' (p1 @ ?core)"
      then obtain z where "p1 @ ?core = z @ '')''" by (auto simp: suffix_def)
      then have "last (p1 @ ?core) = last (z @ '')'')" by (rule arg_cong)
      moreover have "last (p1 @ ?core) = last ?core" using core_ne by (rule last_appendR)
      ultimately have "last ?core = CHR '')''" by simp
      with last_core show False by simp
    qed
    with True show ?thesis by (simp add: endswith_def)
  next
    case False
    with p4 have "p4 = '')''" by simp
    then show ?thesis by (simp add: endswith_def suffix_def)
  qed
  with start have paren: "(startswith ?s ''('' \<and> endswith ?s '')'') = (p1 = ''('' \<and> p4 = '')'')"
    by simp
  have "br_money_to_float ?s =
     (let s1 = strip ?s;
          is_paren = (startswith s1 ''('' \<and> endswith s1 '')'');
          s2 = strip_set ''()'' s1;
          s3 = strip (replace (replace s2 ''R$'' []) ''BRL'' []);
          s4 = replace (replace s3 ''.'' []) '','' ''.''
      in case py_float s4 of
           Inl e \<Rightarrow> Inl e
         | Inr val \<Rightarrow> Inr (if is_paren then val * (- 1) else val))"
    by (rule br_money_to_float_def)
  also have "\<dots> = Inr ((if p1 = ''('' \<and> p4 = '')'' then - 1 else 1)
                * ((if p2 = ''-'' then - 1 else 1) * numeral_value b c))"
    unfolding Let_def s1 s2 noR noB s3 paren signed_core_float [OF b c p2]
    by simp
  finally show ?thesis by simp
qed

lemma amount_token_converts:
  assumes "m \<in> set (finditer AMOUNT_RE line)"
  shows "\<exists>v. br_money_to_float (matched m) = Inr v"
proof -
  from lang_AMOUNT_RE [OF finditer_lang [OF assms]]
  obtain p1 p2 b c p4 where "matched m = p1 @ p2 @ (b @ CHR '','' # c) @ p4"
    "p1 = [] \<or> p1 = ''(''" "p2 = [] \<or> p2 = ''-''" "p4 = [] \<or> p4 = '')''"
    "grouped_digits b" "is_digits c" by blast
  with br_money_to_float_token [of b c p1 p2 p4] show ?thesis by simp
qed

lemma find_best_amount_None_iff:
  "find_best_amount line = None \<longleftrightarrow> finditer AMOUNT_RE line = []"
proof (cases "finditer AMOUNT_RE line = []")
  case True
  then show ?thesis by (simp add: find_best_amount_def)
next
  case False
  then have "last (finditer AMOUNT_RE line) \<in> set (finditer AMOUNT_RE line)" by simp
  from amount_token_converts [OF this] obtain v
    where "br_money_to_float (matched (last (finditer AMOUNT_RE line))) = Inr v" by blast
  with False show ?thesis by (simp add: find_best_amount_def Let_def)
qed

lemma amount_tokens_example:
  "map matched (finditer AMOUNT_RE ''ref 10,00 UBER*TRIP 25,50'') = [''10,00'', ''25,50'']"
  by code_simp

lemma amount_example: "find_best_amount ''ref 10,00 UBER*TRIP 25,50'' = Some (2550 / 100)"
  by code_simp

text \<open>
  Claim C4. The tokens of a line are the matches of the amount pattern, scanned from left
  to right. When the line has no token the amount extractor returns nothing. When it has
  tokens, the result is what the money parser makes of the last one, which is a piece of
  the line at its place, and nothing if the money parser fails on it; no exception leaves
  the extractor, whose result is a value or nothing in every case. (A token of the
  pattern is always converted, so with a token present an amount is returned.) For the
  line \<open>ref 10,00 UBER*TRIP 25,50\<close> the tokens are \<open>10,00\<close> and \<open>25,50\<close> and the
  result is 25.50.
\<close>

theorem amount_extractor_last_token:
  "(finditer AMOUNT_RE line = [] \<longrightarrow> find_best_amount line = None)
   \<and> (finditer AMOUNT_RE line \<noteq> [] \<longrightarrow>
        find_best_amount line
          = (case br_money_to_float (matched (last (finditer AMOUNT_RE line))) of
               Inl e \<Rightarrow> None | Inr v \<Rightarrow> Some v)
        \<and> line = rev (before_rev (last (finditer AMOUNT_RE line)))
                   @ matched (last (finditer AMOUNT_RE line))
                   @ after (last (finditer AMOUNT_RE line))
        \<and> (\<exists>v. find_best_amount line = Some v))
   \<and> map matched (finditer AMOUNT_RE ''ref 10,00 UBER*TRIP 25,50'') = [''10,00'', ''25,50'']
   \<and> find_best_amount ''ref 10,00 UBER*TRIP 25,50'' = Some (2550 / 100)"
proof (intro conjI impI)
  assume "finditer AMOUNT_RE line = []"
  then show "find_best_amount line = None" by (simp add: find_best_amount_def)
next
  assume ne: "finditer AMOUNT_RE line \<noteq> []"
  then show "find_best_amount line
          = (case br_money_to_float (matched (last (finditer AMOUNT_RE line))) of
               Inl e \<Rightarrow> None | Inr v \<Rightarrow> Some v)"
    by (simp add: find_best_amount_def Let_def split: sum.split)
  from ne have "last (finditer AMOUNT_RE line) \<in> set (finditer AMOUNT_RE line)" by simp
  then show "line = rev (before_rev (last (finditer AMOUNT_RE line)))
                   @ matched (last (finditer AMOUNT_RE line))
                   @ after (last (finditer AMOUNT_RE line))"
    by (rule finditer_text)
  from ne find_best_amount_None_iff [of line] show "\<exists>v. find_best_amount line = Some v"
    by (cases "find_best_amount line") simp_all
next
  show "map matched (finditer AMOUNT_RE ''ref 10,00 UBER*TRIP 25,50'') = [''10,00'', ''25,50'']"
    by (rule amount_tokens_example)
  show "find_best_amount ''ref 10,00 UBER*TRIP 25,50'' = Some (2550 / 100)"
    by (rule amount_example)
qed

lemma witness_no_token: "finditer AMOUNT_RE ''marketing text, no price 10/12'' = []"
  by code_simp

theorem amount_extractor_last_token_witness:
  "finditer AMOUNT_RE ''marketing text, no price 10/12'' = []
   \<and> find_best_amount ''marketing text, no price 10/12'' = None
   \<and> finditer AMOUNT_RE ''ref 10,00 UBER*TRIP 25,50'' \<noteq> []
   \<and> matched (last (finditer AMOUNT_RE ''ref 10,00 UBER*TRIP 25,50'')) = ''25,50''
   \<and> br_money_to_float ''25,50'' = Inr (2550 / 100)
   \<and> find_best_amount ''ref 10,00 UBER*TRIP 25,50''
       = (case br_money_to_float (matched (last (finditer AMOUNT_RE
                                                  ''ref 10,00 UBER*TRIP 25,50''))) of
            Inl e \<Rightarrow> None | Inr v \<Rightarrow> Some v)"
proof -
  have ne: "finditer AMOUNT_RE ''ref 10,00 UBER*TRIP 25,50'' \<noteq> []"
    using amount_tokens_example by auto
  have la: "matched (last (finditer AMOUNT_RE ''ref 10,00 UBER*TRIP 25,50'')) = ''25,50''"
    using amount_tokens_example ne by (simp add: last_map [symmetric])
  have conv: "br_money_to_float ''25,50'' = Inr (2550 / 100)" by code_simp
  note a = amount_extractor_last_token [of "''marketing text, no price 10/12''"]
  note b = amount_extractor_last_token [of "''ref 10,00 UBER*TRIP 25,50''"]
  from a witness_no_token
  have r1: "find_best_amount ''marketing text, no price 10/12'' = None" by blast
  from b ne
  have r2: "find_best_amount ''ref 10,00 UBER*TRIP 25,50''
       = (case br_money_to_float (matched (last (finditer AMOUNT_RE
                                                  ''ref 10,00 UBER*TRIP 25,50''))) of
            Inl e \<Rightarrow> None | Inr v \<Rightarrow> Some v)"
    by blast
  from witness_no_token r1 ne la conv r2 show ?thesis by blast
qed

subsection \<open>Totals aggregator: rows and grand total\<close>

lemma whole_cents_iff: "whole_cents v \<longleftrightarrow> (\<exists>n::int. v = of_int n / 100)"
proof -
  have "whole_cents v \<longleftrightarrow> (\<exists>n::int. v * 100 = of_int n)"
    unfolding whole_cents_def by (rule of_int_floor_cancel)
  also have "\<dots> \<longleftrightarrow> (\<exists>n::int. v = of_int n / 100)"
    by (simp add: eq_divide_eq)
  finally show ?thesis .
qed

lemma whole_cents_zero: "whole_cents 0"
  by (simp add: whole_cents_def)

lemma whole_cents_add: "whole_cents a \<Longrightarrow> whole_cents b \<Longrightarrow> whole_cents (a + b)"
proof -
  assume "whole_cents a" "whole_cents b"
  then obtain n m :: int where "a = of_int n / 100" "b = of_int m / 100"
    by (auto simp: whole_cents_iff)
  then have "a + b = of_int (n + m) / 100" by (simp add: add_divide_distrib)
  then show ?thesis unfolding whole_cents_iff by blast
qed

lemma whole_cents_minus: "whole_cents a \<Longrightarrow> whole_cents (- a)"
proof -
  assume "whole_cents a"
  then obtain n :: int where "a = of_int n / 100" by (auto simp: whole_cents_iff)
  then have "- a = of_int (- n) / 100" by simp
  then show ?thesis unfolding whole_cents_iff by blast
qed

lemma whole_cents_sum_list:
  "list_all whole_cents vs \<Longrightarrow> whole_cents (sum_list vs)"
  by (induction vs) (simp_all add: whole_cents_zero whole_cents_add)

lemma round_half_even_int: "round_half_even (of_int n) = n"
  by (simp add: round_half_even_def)

lemma py_round2_whole_cents: "whole_cents v \<Longrightarrow> py_round2 v = v"
proof -
  assume "whole_cents v"
  then obtain n :: int where v: "v = of_int n / 100" by (auto simp: whole_cents_iff)
  show ?thesis by (simp add: py_round2_def v round_half_even_int)
qed

lemma round_half_even_near: "\<bar>of_int (round_half_even x) - x\<bar> \<le> 1 / 2"
proof -
  let ?f = "\<lfloor>x\<rfloor>"
  let ?d = "x - of_int ?f"
  have d: "0 \<le> ?d" "?d < 1" by linarith+
  consider "?d < 1 / 2" | "1 / 2 < ?d" | "?d = 1 / 2" by linarith
  then show ?thesis
  proof cases
    case 1
    then have "round_half_even x = ?f" by (simp add: round_half_even_def)
    with 1 d show ?thesis by simp
  next
    case 2
    then have "round_half_even x = ?f + 1" by (simp add: round_half_even_def)
    with 2 d show ?thesis by simp
  next
    case 3
    then have "round_half_even x = ?f \<or> round_half_even x = ?f + 1"
      by (simp add: round_half_even_def Let_def)
    with 3 show ?thesis by auto
  qed
qed

lemma py_round2_rounds:
  shows "whole_cents (py_round2 x)" and "\<bar>py_round2 x - x\<bar> \<le> 1 / 200"
proof -
  show "whole_cents (py_round2 x)"
    unfolding whole_cents_iff py_round2_def by blast
  have "\<bar>of_int (round_half_even (x * 100)) - x * 100\<bar> \<le> 1 / 2"
    by (rule round_half_even_near)
  then have "\<bar>(of_int (round_half_even (x * 100)) - x * 100) / 100\<bar> \<le> (1 / 2) / 100"
    by (simp only: abs_divide) (simp add: divide_le_cancel)
  then show "\<bar>py_round2 x - x\<bar> \<le> 1 / 200"
    by (simp add: py_round2_def diff_divide_distrib)
qed

lemma numeral_value_cents:
  "length c = 2 \<Longrightarrow> whole_cents (numeral_value b c)"
proof -
  assume "length c = 2"
  then have "numeral_value b c
      = of_int (100 * digits_val (filter (\<lambda>x. x \<noteq> CHR ''.'') b) + digits_val c) / 100"
    by (simp add: numeral_value_def add_divide_distrib)
  then show ?thesis unfolding whole_cents_iff by blast
qed

lemma amount_token_cents:
  assumes "m \<in> set (finditer AMOUNT_RE line)"
  shows "\<exists>v. br_money_to_float (matched m) = Inr v \<and> whole_cents v"
proof -
  from lang_AMOUNT_RE [OF finditer_lang [OF assms]]
  obtain p1 p2 b c p4 where m: "matched m = p1 @ p2 @ (b @ CHR '','' # c) @ p4"
    and p: "p1 = [] \<or> p1 = ''(''" "p2 = [] \<or> p2 = ''-''" "p4 = [] \<or> p4 = '')''"
    and bc: "grouped_digits b" "is_digits c" and len: "length c = 2" by blast
  let ?v = "(if p1 = ''('' \<and> p4 = '')'' then - 1 else 1)
                * ((if p2 = ''-'' then - 1 else 1) * numeral_value b c)"
  from br_money_to_float_token [OF bc p] m
  have "br_money_to_float (matched m) = Inr ?v" by simp
  moreover have "whole_cents ?v"
    using numeral_value_cents [OF len, of b] by (simp add: whole_cents_minus)
  ultimately show ?thesis by blast
qed

lemma find_best_amount_cents:
  assumes "find_best_amount line = Some v"
  shows "whole_cents v"
proof -
  from assms have ne: "finditer AMOUNT_RE line \<noteq> []"
    by (auto simp: find_best_amount_def)
  then have "last (finditer AMOUNT_RE line) \<in> set (finditer AMOUNT_RE line)" by simp
  from amount_token_cents [OF this] obtain u
    where "br_money_to_float (matched (last (finditer AMOUNT_RE line))) = Inr u"
      and "whole_cents u" by blast
  with assms ne show ?thesis by (simp add: find_best_amount_def Let_def)
qed

lemma extract_candidates_cents:
  "list_all (\<lambda>l. whole_cents (valor l)) (extract_candidates_from_text text i kws)"
proof -
  have "whole_cents (valor r)" if "r \<in> set (extract_candidates_from_text text i kws)" for r
  proof -
    from that obtain raw where "extract_line raw i kws = Some r"
      by (auto simp: extract_candidates_map_filter map_filter_def)
    from extract_line_SomeD(4) [OF this] show ?thesis by (rule find_best_amount_cents)
  qed
  then show ?thesis by (simp add: list_all_iff)
qed

lemma read_pages_cents:
  "list_all (\<lambda>l. whole_cents (valor l)) lancs \<Longrightarrow>
     list_all (\<lambda>l. whole_cents (valor l)) (read_pages pages i kws lancs)"
  by (induction pages arbitrary: i lancs) (simp_all add: Let_def extract_candidates_cents)

lemma read_pdf_extract_cents:
  "list_all (\<lambda>l. whole_cents (valor l)) (read_pdf_extract pages kws)"
  unfolding read_pdf_extract_def by (rule read_pages_cents) simp

lemma total_geral_whole_cents:
  assumes "list_all (\<lambda>l. whole_cents (valor l)) lancs"
  shows "resumo_total_geral lancs = sum_list (map valor lancs)"
proof -
  from assms have "list_all whole_cents (map valor lancs)" by (simp add: list_all_iff)
  then have "whole_cents (sum_list (map valor lancs))" by (rule whole_cents_sum_list)
  then show ?thesis by (simp add: resumo_total_geral_eq py_round2_whole_cents)
qed

text \<open>
  Claim C2. For every list of records and every keyword list, the summary has one row per
  configured keyword, in list order, holding the upper-case keyword and the sum, rounded
  to two decimals, of the amounts of the records whose term is that upper-case keyword
  (0 when no record has it), followed by the row \<open>TOTAL GERAL\<close> for all records,
  whether or not their term is configured. Rounding to two decimals gives a whole number
  of cents at most half a cent away. The amounts of line records are whole numbers of
  cents (every amount the engine extracts is one), and for such records the grand total
  is the sum of the amounts of all records; for any list it is that sum rounded to two
  decimals. So the grand total can differ from the sum of the keyword rows: with records
  of 10.00 for \<open>UBER\<close> and 5.00 for \<open>CABIFY\<close> and the keywords \<open>UBER\<close>, \<open>99\<close> the
  rows are 10.00 and 0.00 and the grand total is 15.00.
\<close>

theorem totals_aggregator:
  "resumo_rows lancs keywords
     = map (\<lambda>kw. (upper kw,
                   py_round2 (sum_list (map valor (filter (\<lambda>l. app l = upper kw) lancs)))))
           keywords
       @ [(''TOTAL GERAL'', resumo_total_geral lancs)]
   \<and> ((\<forall>l \<in> set lancs. app l \<noteq> upper kw)
        \<longrightarrow> py_round2 (sum_list (map valor (filter (\<lambda>l. app l = upper kw) lancs))) = 0)
   \<and> whole_cents (py_round2 x) \<and> \<bar>py_round2 x - x\<bar> \<le> 1 / 200
   \<and> (list_all (\<lambda>l. whole_cents (valor l)) lancs
        \<longrightarrow> resumo_total_geral lancs = sum_list (map valor lancs))
   \<and> list_all (\<lambda>l. whole_cents (valor l)) (read_pdf_extract pages extraction_keywords)
   \<and> resumo_total_geral (read_pdf_extract pages extraction_keywords)
       = sum_list (map valor (read_pdf_extract pages extraction_keywords))
   \<and> resumo_total_geral lancs = py_round2 (sum_list (map valor lancs))
   \<and> resumo_rows
        [\<lparr>app = ''UBER'', data = '''', descricao = ''UBER 10,00'', valor = 10, pagina = 1\<rparr>,
         \<lparr>app = ''CABIFY'', data = '''', descricao = ''CABIFY 5,00'', valor = 5, pagina = 1\<rparr>]
        [''UBER'', ''99'']
      = [(''UBER'', 10), (''99'', 0), (''TOTAL GERAL'', 15)]"
proof (intro conjI impI)
  show "resumo_rows lancs keywords
     = map (\<lambda>kw. (upper kw,
                   py_round2 (sum_list (map valor (filter (\<lambda>l. app l = upper kw) lancs)))))
           keywords
       @ [(''TOTAL GERAL'', resumo_total_geral lancs)]"
    by (simp only: resumo_rows_def resumo_term_rows_eq)
next
  assume "\<forall>l \<in> set lancs. app l \<noteq> upper kw"
  then have "filter (\<lambda>l. app l = upper kw) lancs = []"
    by (simp add: filter_empty_conv)
  then show "py_round2 (sum_list (map valor (filter (\<lambda>l. app l = upper kw) lancs))) = 0"
    by (simp add: py_round2_zero)
next
  show "whole_cents (py_round2 x)" by (rule py_round2_rounds(1))
  show "\<bar>py_round2 x - x\<bar> \<le> 1 / 200" by (rule py_round2_rounds(2))
next
  assume "list_all (\<lambda>l. whole_cents (valor l)) lancs"
  then show "resumo_total_geral lancs = sum_list (map valor lancs)"
    by (rule total_geral_whole_cents)
next
  show "list_all (\<lambda>l. whole_cents (valor l)) (read_pdf_extract pages extraction_keywords)"
    by (rule read_pdf_extract_cents)
  then show "resumo_total_geral (read_pdf_extract pages extraction_keywords)
       = sum_list (map valor (read_pdf_extract pages extraction_keywords))"
    by (rule total_geral_whole_cents)
next
  show "resumo_total_geral lancs = py_round2 (sum_list (map valor lancs))"
    by (rule resumo_total_geral_eq)
next
  show "resumo_rows
        [\<lparr>app = ''UBER'', data = '''', descricao = ''UBER 10,00'', valor = 10, pagina = 1\<rparr>,
         \<lparr>app = ''CABIFY'', data = '''', descricao = ''CABIFY 5,00'', valor = 5, pagina = 1\<rparr>]
        [''UBER'', ''99'']
      = [(''UBER'', 10), (''99'', 0), (''TOTAL GERAL'', 15)]"
    by (rule unconfigured_term_example)
qed

theorem totals_aggregator_witness:
  "list_all (\<lambda>l. whole_cents (valor l))
     [\<lparr>app = ''UBER'', data = '''', descricao = ''UBER 10,00'', valor = 10, pagina = 1\<rparr>,
      \<lparr>app = ''CABIFY'', data = '''', descricao = ''CABIFY 5,00'', valor = 5, pagina = 1\<rparr>]
   \<and> resumo_total_geral
       [\<lparr>app = ''UBER'', data = '''', descricao = ''UBER 10,00'', valor = 10, pagina = 1\<rparr>,
        \<lparr>app = ''CABIFY'', data = '''', descricao = ''CABIFY 5,00'', valor = 5, pagina = 1\<rparr>]
       = 15
   \<and> list_all (\<lambda>l. app l \<noteq> upper ''99'')
       [\<lparr>app = ''UBER'', data = '''', descricao = ''UBER 10,00'', valor = 10, pagina = 1\<rparr>,
        \<lparr>app = ''CABIFY'', data = '''', descricao = ''CABIFY 5,00'', valor = 5, pagina = 1\<rparr>]
   \<and> py_round2 (sum_list (map valor (filter (\<lambda>l. app l = upper ''99'')
       [\<lparr>app = ''UBER'', data = '''', descricao = ''UBER 10,00'', valor = 10, pagina = 1\<rparr>,
        \<lparr>app = ''CABIFY'', data = '''', descricao = ''CABIFY 5,00'', valor = 5,
          pagina = 1\<rparr>]))) = 0"
proof -
  let ?lancs = "[\<lparr>app = ''UBER'', data = '''', descricao = ''UBER 10,00'', valor = 10,
                  pagina = 1\<rparr>,
                 \<lparr>app = ''CABIFY'', data = '''', descricao = ''CABIFY 5,00'', valor = 5,
                  pagina = 1\<rparr>]"
  have cents: "list_all (\<lambda>l. whole_cents (valor l)) ?lancs" by code_simp
  have absent: "list_all (\<lambda>l. app l \<noteq> upper ''99'') ?lancs" by code_simp
  then have absent': "\<forall>l \<in> set ?lancs. app l \<noteq> upper ''99''" by (simp only: list_all_iff)
  have sum: "sum_list (map valor ?lancs) = 15" by simp
  note t = totals_aggregator [of ?lancs "[''UBER'', ''99'']" "''99''"]
  from t cents have "resumo_total_geral ?lancs = sum_list (map valor ?lancs)" by blast
  with sum have total: "resumo_total_geral ?lancs = 15" by simp
  from t absent'
  have zero: "py_round2 (sum_list (map valor (filter (\<lambda>l. app l = upper ''99'') ?lancs))) = 0"
    by blast
  from cents total absent zero show ?thesis by (intro conjI)
qed

end
